theory Spec2Isabelle
  imports Complex_Main
begin

section \<open>Options\<close>

text \<open>
  A JavaScript number: a finite one (taken as a rational), one of the two infinities, or
  NaN. The engine never rounds \<open>threads\<close>, so the fractions matter.
\<close>

datatype jsnum = Fin rat | PosInf | NegInf | NaN

text \<open>\<open>k < n\<close> for a count \<open>k\<close> and a number \<open>n\<close>, as the loops test \<open>currentIndex < threads\<close>.\<close>

fun below :: "nat \<Rightarrow> jsnum \<Rightarrow> bool" where
  "below k (Fin q) = (of_nat k < q)"
| "below k PosInf = True"
| "below k NegInf = False"
| "below k NaN = False"

text \<open>\<open>a <= b\<close> on numbers: false when either is NaN.\<close>

fun lessEq :: "jsnum \<Rightarrow> jsnum \<Rightarrow> bool" where
  "lessEq NaN b = False"
| "lessEq a NaN = False"
| "lessEq NegInf b = True"
| "lessEq a PosInf = True"
| "lessEq (Fin a) (Fin b) = (a \<le> b)"
| "lessEq a b = False"

text \<open>\<open>Math.max(a, b)\<close>: NaN when either is NaN.\<close>

fun mathMax :: "jsnum \<Rightarrow> jsnum \<Rightarrow> jsnum" where
  "mathMax NaN b = NaN"
| "mathMax a NaN = NaN"
| "mathMax PosInf b = PosInf"
| "mathMax a PosInf = PosInf"
| "mathMax NegInf b = b"
| "mathMax a NegInf = a"
| "mathMax (Fin a) (Fin b) = Fin (max a b)"

text \<open>
  \<open>new Array(n)\<close>: an array of \<open>n\<close> empty cells when \<open>n\<close> is an integer from 0 to
  \<open>2^32 - 1\<close>; for every other number it throws a \<open>RangeError\<close> (\<open>None\<close>).
\<close>

fun arrayLength :: "jsnum \<Rightarrow> nat option" where
  "arrayLength (Fin q) =
     (if 0 \<le> q \<and> q < 2 ^ 32 \<and> of_int \<lfloor>q\<rfloor> = q then Some (nat \<lfloor>q\<rfloor>) else None)"
| "arrayLength n = None"

text \<open>
  A JavaScript value as far as \<open>getOptions\<close> inspects one: \<open>options.threads\<close> is either
  missing, a number, or something that is not of type number.
\<close>

datatype jsval = Undefined | Num jsnum | NotANumber

text \<open>
  \<open>isNumber\<close> comes from the package \<open>@st-lib/is\<close>, which is not part of the sources. It is
  taken to hold of every number other than NaN and of nothing that is not a number;
  whether it holds of NaN is its first argument, left open.
\<close>

fun isNumber :: "bool \<Rightarrow> jsval \<Rightarrow> bool" where
  "isNumber nan (Num NaN) = nan"
| "isNumber nan (Num n) = True"
| "isNumber nan v = False"

text \<open>
  An optional callback field of \<open>IOptions\<close>: missing, present but not a function, or a
  function.
\<close>

datatype 'f jsfield = Missing | NonFunction | Func 'f

text \<open>
  \<open>IOptions\<close>. The predicate \<open>isCanceled\<close> takes no argument in the source and may read any
  state of its environment; here it is a function of the number of settled tasks
  (\<open>readyCount\<close>), the only engine state a caller can observe (through \<open>onProgress\<close>).
  \<open>onProgress\<close> is a callback with no result; its calls are logged in the engine state.
\<close>

record IOptions =
  threads :: jsval
  isCanceled :: "(nat \<Rightarrow> bool) jsfield"
  onProgress :: "unit jsfield"

text \<open>The object returned by \<open>getOptions\<close>; \<open>None\<close> is the source's \<open>null\<close>.\<close>

record resolved =
  r_threads :: jsnum
  r_isCanceled :: "(nat \<Rightarrow> bool) option"
  r_onProgress :: "unit option"

text \<open>
  \<open>getOptions\<close>, with what \<open>isNumber\<close> says of NaN and the current value of the
  process-wide \<open>config.defaultThreads\<close> as its first arguments. \<open>options\<close> is \<open>None\<close> for
  \<open>null\<close> or \<open>undefined\<close>.
\<close>

definition getOptions :: "bool \<Rightarrow> jsnum \<Rightarrow> IOptions option \<Rightarrow> resolved" where
  "getOptions nan defaultThreads options =
     \<lparr> r_threads =
         (case options of
            None \<Rightarrow> defaultThreads
          | Some opts \<Rightarrow>
              (if isNumber nan (threads opts)
               then (case threads opts of
                       Num n \<Rightarrow> mathMax n (Fin 2)
                     | _ \<Rightarrow> defaultThreads)
               else defaultThreads)),
       r_isCanceled =
         (case options of
            None \<Rightarrow> None
          | Some opts \<Rightarrow> (case isCanceled opts of Func f \<Rightarrow> Some f | _ \<Rightarrow> None)),
       r_onProgress =
         (case options of
            None \<Rightarrow> None
          | Some opts \<Rightarrow> (case onProgress opts of Func f \<Rightarrow> Some f | _ \<Rightarrow> None)) \<rparr>"

text \<open>The initial value of \<open>config.defaultThreads\<close>.\<close>

definition initialDefaultThreads :: jsnum where
  "initialDefaultThreads = Fin 4"


section \<open>Calls, tasks and the engine state\<close>

text \<open>
  The repository holds two versions of the engine: \<open>src/src/index.ts\<close> runs over an array
  (\<open>Indexed\<close>) and \<open>src/unnamed/part_000\<close> over any iterable, through an iterator
  (\<open>Iterated\<close>). Each has the two entry points \<open>runDependently\<close> and \<open>runIndependently\<close>.
\<close>

datatype backend = Indexed | Iterated

datatype policy = Dependently | Independently

text \<open>
  What the work function does on one item: it throws before returning, or it returns a
  promise, which later fulfils with a value or rejects with an error.
\<close>

datatype ('r, 'e) outcome = Fulfils 'r | Rejects 'e

datatype ('r, 'e) reply = Throws 'e | Returns "('r, 'e) outcome"

text \<open>
  An error the overall promise rejects with: one of the work function, or the
  \<open>RangeError\<close> of \<open>new Array(threads)\<close> on a length that is not an integer from 0 to
  \<open>2^32 - 1\<close>.
\<close>

datatype 'e failure = RangeError | Failure 'e

text \<open>
  A task is the promise \<open>cb(...).then(...).catch(...).finally(...)\<close> that \<open>put\<close> stores in
  \<open>tasks\<close>. It is \<open>Running\<close> while the promise of the work function is pending, \<open>Handled\<close>
  once the \<open>then\<close> or the \<open>catch\<close> handler has run, and \<open>Settled\<close> once the \<open>finally\<close>
  handler has run, which settles the task itself.
\<close>

datatype stage = Running | Handled | Settled

record ('r, 'e) task =
  index :: nat
  fate :: "('r, 'e) outcome"
  stage :: stage

text \<open>\<open>Result<T>\<close>: \<open>{ok: true, data}\<close> or \<open>{ok: false, error}\<close>.\<close>

datatype ('r, 'e) Result = Ok 'r | Err 'e

text \<open>
  The promise returned to the caller. It settles once: \<open>res\<close> and \<open>rej\<close> do nothing on a
  settled promise. It resolves with a reference to the engine's own \<open>out\<close>, so its value is
  read from the state.
\<close>

datatype 'e promise = Pending | Resolved | Rejected "'e failure"

text \<open>
  Where the engine's own continuation waits: on \<open>Promise.race\<close> of the tasks listed (by
  index) with \<open>next\<close> to run after it, on \<open>Promise.all\<close> of the tasks listed with \<open>res(out)\<close>
  to run after it, or nowhere (it has ended).
\<close>

datatype phase = Racing "nat list" | Draining "nat list" | Stopped

record ('a, 'r, 'e) call =
  backend :: backend
  policy :: policy
  source :: "'a list"
  cb :: "'a \<Rightarrow> nat \<Rightarrow> ('r, 'e) reply"
  options :: "IOptions option"
  defaultThreads :: jsnum
  nanIsNumber :: bool

text \<open>The options of a call, resolved once from the default current at the call.\<close>

definition opts :: "('a, 'r, 'e) call \<Rightarrow> resolved" where
  "opts c = getOptions (nanIsNumber c) (defaultThreads c) (options c)"

text \<open>
  The variables of one call. \<open>throwed\<close> and \<open>out\<close> are those of \<open>runDependently\<close>;
  \<open>results\<close>, \<open>values\<close> (here \<open>values'\<close>), \<open>errors\<close> and \<open>ok\<close> are the fields of \<open>out\<close> in
  \<open>runIndependently\<close>.
  An array cell is \<open>None\<close> while it is empty. \<open>iter\<close> is what the iterator has not yielded
  yet. The last four fields are not in the source: \<open>progress\<close> logs the arguments of
  \<open>onProgress\<close>, \<open>polls\<close> the value of \<open>readyCount\<close> at each call of \<open>isCanceled\<close>,
  \<open>rejections\<close> the arguments of \<open>reject\<close>, and \<open>started\<close> the fate of each task admitted,
  all in the order of the calls.
\<close>

record ('a, 'r, 'e) state =
  throwed :: bool
  readyCount :: nat
  currentIndex :: nat
  iter :: "'a list"
  out :: "'r option list"
  results :: "('r, 'e) Result option list"
  values' :: "'r option list"
  errors :: "nat \<rightharpoonup> 'e"
  ok :: bool
  tasks :: "('r, 'e) task list"
  promise :: "'e promise"
  phase :: phase
  progress :: "nat list"
  polls :: "nat list"
  rejections :: "'e list"
  started :: "('r, 'e) outcome list"

section \<open>Arrays\<close>

text \<open>\<open>xs.length = n\<close>: cut to \<open>n\<close> cells, or extended with empty ones.\<close>

definition setLength :: "'v option list \<Rightarrow> nat \<Rightarrow> 'v option list" where
  "setLength xs n = take n xs @ replicate (n - length xs) None"

text \<open>\<open>xs[i] = v\<close>: beyond the end, the array grows, with empty cells in between.\<close>

definition assign :: "'v option list \<Rightarrow> nat \<Rightarrow> 'v \<Rightarrow> 'v option list" where
  "assign xs i v = (setLength xs (max (length xs) (i + 1)))[i := Some v]"

section \<open>Admission\<close>

text \<open>
  \<open>put\<close>: calls the work function on the item and queues the task. When the work function
  throws, the exception leaves \<open>put\<close> (\<open>Inl\<close>, with the state as it is then): nothing is
  queued and \<open>currentIndex\<close> stays. The iterator version first grows the output arrays.
\<close>

definition put :: "('a, 'r, 'e) call \<Rightarrow> 'a \<Rightarrow> ('a, 'r, 'e) state
    \<Rightarrow> 'e \<times> ('a, 'r, 'e) state + ('a, 'r, 'e) state" where
  "put c v s =
     (let i = currentIndex s;
          s1 = (case backend c of
                  Indexed \<Rightarrow> s
                | Iterated \<Rightarrow>
                    (case policy c of
                       Dependently \<Rightarrow> s\<lparr>out := setLength (out s) (max (length (out s)) (i + 1))\<rparr>
                     | Independently \<Rightarrow>
                         s\<lparr>values' := setLength (values' s) (max (length (values' s)) (i + 1)),
                           results := setLength (results s) (max (length (results s)) (i + 1))\<rparr>))
      in case cb c v i of
           Throws e \<Rightarrow> Inl (e, s1)
         | Returns f \<Rightarrow>
             Inr (s1\<lparr>tasks := tasks s1 @ [\<lparr>index = i, fate = f, stage = Running\<rparr>],
                     started := started s1 @ [f],
                     currentIndex := i + 1\<rparr>))"

text \<open>
  The pre-fill of \<open>index.ts\<close>:
  \<open>while (currentIndex < threads && currentIndex < array.length) put()\<close>.
\<close>

function whileLoop :: "('a, 'r, 'e) call \<Rightarrow> ('a, 'r, 'e) state
    \<Rightarrow> 'e \<times> ('a, 'r, 'e) state + ('a, 'r, 'e) state" where
  "whileLoop c s =
     (if below (currentIndex s) (r_threads (opts c)) \<and> currentIndex s < length (source c)
      then (case put c (source c ! currentIndex s) s of
              Inl x \<Rightarrow> Inl x
            | Inr s' \<Rightarrow> whileLoop c s')
      else Inr s)"
  by pat_completeness auto
termination
  by (relation "measure (\<lambda>(c, s). length (source c) - currentIndex s)")
     (auto simp: put_def Let_def split: reply.splits backend.splits policy.splits)

text \<open>
  The pre-fill of the iterator version:
  \<open>for (let it = iter.next(); currentIndex < threads && !it.done; it = iter.next()) put(it.value)\<close>.
  The second argument is what the iterator has left. \<open>iter.next()\<close> runs before the
  condition is tested, so the element it yields is taken from the iterator also when the
  test on \<open>currentIndex\<close> then ends the loop.
\<close>

fun forLoop :: "('a, 'r, 'e) call \<Rightarrow> 'a list \<Rightarrow> ('a, 'r, 'e) state
    \<Rightarrow> 'e \<times> ('a, 'r, 'e) state + ('a, 'r, 'e) state" where
  "forLoop c [] s = Inr (s\<lparr>iter := []\<rparr>)"
| "forLoop c (v # rest) s =
     (if below (currentIndex s) (r_threads (opts c))
      then (case put c v (s\<lparr>iter := rest\<rparr>) of
              Inl x \<Rightarrow> Inl x
            | Inr s' \<Rightarrow> forLoop c rest s')
      else Inr (s\<lparr>iter := rest\<rparr>))"

text \<open>The variables as the executor declares them, before the pre-fill.\<close>

definition init :: "('a, 'r, 'e) call \<Rightarrow> ('a, 'r, 'e) state" where
  "init c =
     (let n = (case backend c of
                 Indexed \<Rightarrow> length (source c)
               | Iterated \<Rightarrow>
                   (case arrayLength (r_threads (opts c)) of Some n \<Rightarrow> n | None \<Rightarrow> 0))
      in \<lparr> throwed = False, readyCount = 0, currentIndex = 0,
           iter = (case backend c of Indexed \<Rightarrow> [] | Iterated \<Rightarrow> source c),
           out = (case policy c of Dependently \<Rightarrow> replicate n None | Independently \<Rightarrow> []),
           results = (case policy c of Dependently \<Rightarrow> [] | Independently \<Rightarrow> replicate n None),
           values' = (case policy c of Dependently \<Rightarrow> [] | Independently \<Rightarrow> replicate n None),
           errors = Map.empty, ok = True, tasks = [], promise = Pending, phase = Stopped,
           progress = [], polls = [], rejections = [], started = [] \<rparr>)"

text \<open>
  The executor of \<open>new Promise\<close>, which runs within the call: the declarations, the
  pre-fill, and \<open>Promise.race(tasks).then(next)\<close> (in \<open>runDependently\<close> under
  \<open>if (!throwed)\<close>). An exception that leaves the executor rejects the promise, and the
  rest of the executor does not run.
\<close>

definition start :: "('a, 'r, 'e) call \<Rightarrow> ('a, 'r, 'e) state" where
  "start c =
     (if backend c = Iterated \<and> arrayLength (r_threads (opts c)) = None
      then (init c)\<lparr>promise := Rejected RangeError\<rparr>
      else (case (case backend c of
                    Indexed \<Rightarrow> whileLoop c (init c)
                  | Iterated \<Rightarrow> forLoop c (source c) (init c)) of
              Inl (e, s) \<Rightarrow> s\<lparr>promise := Rejected (Failure e)\<rparr>
            | Inr s \<Rightarrow>
                (if policy c = Dependently \<and> throwed s then s
                 else s\<lparr>phase := Racing (map index (tasks s))\<rparr>)))"

section \<open>Handlers\<close>

text \<open>\<open>reject\<close> of \<open>runDependently\<close>: \<open>throwed = true; rej(error)\<close>.\<close>

definition reject :: "'e \<Rightarrow> ('a, 'r, 'e) state \<Rightarrow> ('a, 'r, 'e) state" where
  "reject e s =
     s\<lparr>throwed := True,
       promise := (if promise s = Pending then Rejected (Failure e) else promise s),
       rejections := rejections s @ [e]\<rparr>"

text \<open>
  The \<open>then\<close> and \<open>catch\<close> handlers that \<open>put\<close> attaches to the promise of the work
  function, for the task of index \<open>i\<close>: one of the two runs, by the fate of that promise.
\<close>

definition handlers :: "('a, 'r, 'e) call \<Rightarrow> nat \<Rightarrow> ('r, 'e) outcome
    \<Rightarrow> ('a, 'r, 'e) state \<Rightarrow> ('a, 'r, 'e) state" where
  "handlers c i f s =
     (case policy c of
        Dependently \<Rightarrow>
          (case f of
             Fulfils r \<Rightarrow> s\<lparr>out := assign (out s) i r\<rparr>
           | Rejects e \<Rightarrow> reject e s)
      | Independently \<Rightarrow>
          (case f of
             Fulfils r \<Rightarrow>
               s\<lparr>values' := assign (values' s) i r, results := assign (results s) i (Ok r)\<rparr>
           | Rejects e \<Rightarrow>
               s\<lparr>ok := False, errors := (errors s)(i \<mapsto> e),
                 results := assign (results s) i (Err e)\<rparr>))"

text \<open>The \<open>finally\<close> handler of \<open>put\<close>: \<open>readyCount++; if (onProgress) onProgress(readyCount)\<close>.\<close>

definition finally' :: "('a, 'r, 'e) call \<Rightarrow> ('a, 'r, 'e) state \<Rightarrow> ('a, 'r, 'e) state" where
  "finally' c s =
     (let n = readyCount s + 1
      in s\<lparr>readyCount := n,
           progress := (case r_onProgress (opts c) of
                          None \<Rightarrow> progress s
                        | Some f \<Rightarrow> progress s @ [n])\<rparr>)"

text \<open>
  \<open>dequeue\<close>: takes the task out of \<open>tasks\<close> when it is there. The tasks are distinct
  promises; here the index tells them apart.
\<close>

definition dequeue :: "nat \<Rightarrow> ('a, 'r, 'e) state \<Rightarrow> ('a, 'r, 'e) state" where
  "dequeue i s = s\<lparr>tasks := filter (\<lambda>t. index t \<noteq> i) (tasks s)\<rparr>"

definition setStage :: "nat \<Rightarrow> stage \<Rightarrow> ('r, 'e) task list \<Rightarrow> ('r, 'e) task list" where
  "setStage i st ts = map (\<lambda>t. if index t = i then t\<lparr>stage := st\<rparr> else t) ts"

section \<open>The continuation\<close>

text \<open>\<open>iter.next()\<close>: the next element, or \<open>None\<close> for \<open>done\<close>.\<close>

definition pull :: "('a, 'r, 'e) state \<Rightarrow> 'a option \<times> ('a, 'r, 'e) state" where
  "pull s = (case iter s of [] \<Rightarrow> (None, s) | v # rest \<Rightarrow> (Some v, s\<lparr>iter := rest\<rparr>))"

text \<open>
  The item \<open>next\<close> would admit: the iterator version pulls it (\<open>const it = iter.next()\<close>);
  the array version reads \<open>array[currentIndex]\<close>, and \<open>None\<close> stands for
  \<open>array.length <= currentIndex\<close>.
\<close>

definition nextItem :: "('a, 'r, 'e) call \<Rightarrow> ('a, 'r, 'e) state
    \<Rightarrow> 'a option \<times> ('a, 'r, 'e) state" where
  "nextItem c s =
     (case backend c of
        Iterated \<Rightarrow> pull s
      | Indexed \<Rightarrow>
          (if length (source c) \<le> currentIndex s then (None, s)
           else (Some (source c ! currentIndex s), s)))"

text \<open>\<open>isCanceled && isCanceled()\<close>, with the call logged.\<close>

definition canceled :: "('a, 'r, 'e) call \<Rightarrow> ('a, 'r, 'e) state \<Rightarrow> bool \<times> ('a, 'r, 'e) state" where
  "canceled c s =
     (case r_isCanceled (opts c) of
        None \<Rightarrow> (False, s)
      | Some p \<Rightarrow> (p (readyCount s), s\<lparr>polls := polls s @ [readyCount s]\<rparr>))"

text \<open>
  The body of \<open>next\<close>, up to its first \<open>await\<close>. When it stops, it waits for
  \<open>Promise.all(tasks)\<close>; otherwise it admits one item and waits for \<open>Promise.race(tasks)\<close>.
  An exception of \<open>put\<close> rejects the promise of \<open>next()\<close>, which nothing handles: the
  continuation ends there.
\<close>

definition next' :: "('a, 'r, 'e) call \<Rightarrow> ('a, 'r, 'e) state \<Rightarrow> ('a, 'r, 'e) state" where
  "next' c s =
     (let (it, s1) = nextItem c s;
          (cancel, s2) = canceled c s1
      in if cancel \<or> it = None \<or> (policy c = Dependently \<and> throwed s2)
         then s2\<lparr>phase := Draining (map index (tasks s2))\<rparr>
         else (case it of
                 None \<Rightarrow> s2\<lparr>phase := Draining (map index (tasks s2))\<rparr>
               | Some v \<Rightarrow>
                   (case put c v s2 of
                      Inl (e, s3) \<Rightarrow> s3\<lparr>phase := Stopped\<rparr>
                    | Inr s3 \<Rightarrow> s3\<lparr>phase := Racing (map index (tasks s3))\<rparr>)))"

text \<open>\<open>res(out)\<close> after \<open>await Promise.all(tasks)\<close>; then \<open>next\<close> returns.\<close>

definition res :: "('a, 'r, 'e) state \<Rightarrow> ('a, 'r, 'e) state" where
  "res s = s\<lparr>promise := (if promise s = Pending then Resolved else promise s),
             phase := Stopped\<rparr>"

section \<open>Events\<close>

text \<open>
  Between two turns of the engine the tasks make progress in an order the engine does not
  control. An event is one turn:
  \<^item> \<open>Handle i\<close>: the promise of the work function for task \<open>i\<close> settles and its \<open>then\<close> or
    \<open>catch\<close> handler runs;
  \<^item> \<open>Finish i\<close>: the \<open>finally\<close> handler of task \<open>i\<close> runs, and the task settles;
  \<^item> \<open>Dequeue i\<close>: the reaction \<open>dequeue\<close> that \<open>queue\<close> attached to the settled task runs;
  \<^item> \<open>Wake\<close>: the promise the continuation waits for has settled, and the continuation
    runs. \<open>queue\<close> attaches \<open>dequeue\<close> to a task before any \<open>Promise.race\<close> or
    \<open>Promise.all\<close> can attach its own reaction, and reactions run in the order they were
    attached: so a race is won by a task already taken out of \<open>tasks\<close>, and \<open>Promise.all\<close>
    is through when all its tasks are out. \<open>Promise.race\<close> of no task never settles.
  \<open>fire\<close> is \<open>None\<close> when the event cannot happen in the state.
\<close>

datatype event = Handle nat | Finish nat | Dequeue nat | Wake

fun fire :: "('a, 'r, 'e) call \<Rightarrow> event \<Rightarrow> ('a, 'r, 'e) state \<Rightarrow> ('a, 'r, 'e) state option" where
  "fire c (Handle i) s =
     (case find (\<lambda>t. index t = i \<and> stage t = Running) (tasks s) of
        None \<Rightarrow> None
      | Some t \<Rightarrow> Some (handlers c i (fate t) (s\<lparr>tasks := setStage i Handled (tasks s)\<rparr>)))"
| "fire c (Finish i) s =
     (case find (\<lambda>t. index t = i \<and> stage t = Handled) (tasks s) of
        None \<Rightarrow> None
      | Some t \<Rightarrow> Some (finally' c (s\<lparr>tasks := setStage i Settled (tasks s)\<rparr>)))"
| "fire c (Dequeue i) s =
     (case find (\<lambda>t. index t = i \<and> stage t = Settled) (tasks s) of
        None \<Rightarrow> None
      | Some t \<Rightarrow> Some (dequeue i s))"
| "fire c Wake s =
     (case phase s of
        Stopped \<Rightarrow> None
      | Racing snap \<Rightarrow>
          (if \<exists>i \<in> set snap. i \<notin> set (map index (tasks s)) then Some (next' c s) else None)
      | Draining snap \<Rightarrow>
          (if \<forall>i \<in> set snap. i \<notin> set (map index (tasks s)) then Some (res s) else None))"

text \<open>A run: the events fired one after the other, from a state.\<close>

fun exec :: "('a, 'r, 'e) call \<Rightarrow> event list \<Rightarrow> ('a, 'r, 'e) state
    \<Rightarrow> ('a, 'r, 'e) state option" where
  "exec c [] s = Some s"
| "exec c (ev # evs) s = (case fire c ev s of None \<Rightarrow> None | Some s' \<Rightarrow> exec c evs s')"

text \<open>The states a call can be in: after the executor, and after any event that can happen.\<close>

inductive reachable :: "('a, 'r, 'e) call \<Rightarrow> ('a, 'r, 'e) state \<Rightarrow> bool"
  for c :: "('a, 'r, 'e) call" where
  reach_start: "reachable c (start c)"
| reach_fire: "reachable c s \<Longrightarrow> fire c ev s = Some s' \<Longrightarrow> reachable c s'"

text \<open>
  The entry points, as calls: the version, the source, the work function, the options and
  the default current at the call. No call below has NaN for \<open>threads\<close>, so what
  \<open>isNumber\<close> says of NaN is set to false in them; the theorems are about any call.
\<close>

definition runDependently :: "backend \<Rightarrow> 'a list \<Rightarrow> ('a \<Rightarrow> nat \<Rightarrow> ('r, 'e) reply)
    \<Rightarrow> IOptions option \<Rightarrow> jsnum \<Rightarrow> ('a, 'r, 'e) call" where
  "runDependently b xs f os d =
     \<lparr>backend = b, policy = Dependently, source = xs, cb = f, options = os, defaultThreads = d,
      nanIsNumber = False\<rparr>"

definition runIndependently :: "backend \<Rightarrow> 'a list \<Rightarrow> ('a \<Rightarrow> nat \<Rightarrow> ('r, 'e) reply)
    \<Rightarrow> IOptions option \<Rightarrow> jsnum \<Rightarrow> ('a, 'r, 'e) call" where
  "runIndependently b xs f os d =
     \<lparr>backend = b, policy = Independently, source = xs, cb = f, options = os, defaultThreads = d,
      nanIsNumber = False\<rparr>"

section \<open>Predicates on calls and states\<close>

text \<open>
  The resolved window as a count of tasks: how many counts \<open>k\<close> from 0 up pass the test
  \<open>k < threads\<close> of the loops. For a finite window that is the window rounded up, or 0
  when it is not positive; for NaN it is 0. For an infinite window every count passes,
  and the length of the source stands in, which the pre-fill of the array version cannot
  exceed (the iterator version does not start with such a window).
\<close>

definition window :: "('a, 'r, 'e) call \<Rightarrow> nat" where
  "window c =
     (case r_threads (opts c) of
        Fin q \<Rightarrow> nat \<lceil>q\<rceil>
      | PosInf \<Rightarrow> length (source c)
      | NegInf \<Rightarrow> 0
      | NaN \<Rightarrow> 0)"

text \<open>A work function that never throws: every call returns a promise, as its type says.\<close>

definition promises :: "('a, 'r, 'e) call \<Rightarrow> bool" where
  "promises c \<longleftrightarrow> (\<forall>v i e. cb c v i \<noteq> Throws e)"

text \<open>
  What holds of \<open>tasks\<close> and the counters in every state of a call: the tasks in \<open>tasks\<close>
  have distinct indices, all admitted, and the fates logged for them; \<open>readyCount\<close> counts
  the tasks admitted whose \<open>finally\<close> handler has run; \<open>tasks\<close> never holds more tasks
  than the window; and the tasks still in \<open>tasks\<close> are among those the continuation waits
  for.
\<close>

definition structured :: "('a, 'r, 'e) call \<Rightarrow> ('a, 'r, 'e) state \<Rightarrow> bool" where
  "structured c s \<longleftrightarrow>
     distinct (map index (tasks s)) \<and>
     (\<forall>t \<in> set (tasks s). index t < currentIndex s \<and> fate t = started s ! index t) \<and>
     length (started s) = currentIndex s \<and>
     readyCount s + length (filter (\<lambda>t. stage t \<noteq> Settled) (tasks s)) = currentIndex s \<and>
     length (tasks s) \<le> window c \<and>
     (case phase s of
        Racing snap \<Rightarrow>
          set (map index (tasks s)) \<subseteq> set snap \<and> distinct snap \<and> length snap \<le> window c \<and>
          (\<forall>i \<in> set snap. i < currentIndex s)
      | Draining snap \<Rightarrow> set (map index (tasks s)) \<subseteq> set snap
      | Stopped \<Rightarrow> True)"

text \<open>
  What holds during the pre-fill, after any number of turns of its loop: the tasks
  admitted so far have the indices from 0 up, none has settled, each is for the item at
  its index, and nothing else has happened.
\<close>

definition admitting :: "('a, 'r, 'e) call \<Rightarrow> ('a, 'r, 'e) state \<Rightarrow> bool" where
  "admitting c s \<longleftrightarrow>
     map index (tasks s) = [0..<currentIndex s] \<and>
     (\<forall>t \<in> set (tasks s). stage t = Running \<and> fate t = started s ! index t) \<and>
     length (started s) = currentIndex s \<and>
     currentIndex s \<le> window c \<and> currentIndex s \<le> length (source c) \<and>
     (\<forall>i < currentIndex s. cb c (source c ! i) i = Returns (started s ! i)) \<and>
     readyCount s = 0 \<and> phase s = Stopped \<and> promise s = Pending \<and> \<not> throwed s \<and>
     polls s = [] \<and> progress s = [] \<and> rejections s = [] \<and>
     errors s = Map.empty \<and> ok s \<and>
     out s = out (init c) \<and> results s = results (init c) \<and> values' s = values' (init c)"

text \<open>The stop condition of \<open>next\<close>.\<close>

definition stopping :: "('a, 'r, 'e) call \<Rightarrow> ('a, 'r, 'e) state \<Rightarrow> bool" where
  "stopping c s \<longleftrightarrow>
     fst (canceled c s) \<or> fst (nextItem c s) = None \<or> (policy c = Dependently \<and> throwed s)"

text \<open>
  The position in the source of the item that gets index \<open>i\<close>. The array version reads
  \<open>array[i]\<close>. In the iterator version the pre-fill takes one element more from the
  iterator than it admits when the source is longer than the window, so from index
  \<open>window\<close> on the item of index \<open>i\<close> is the element at position \<open>i + 1\<close>.
\<close>

definition srcpos :: "('a, 'r, 'e) call \<Rightarrow> nat \<Rightarrow> nat" where
  "srcpos c i = (if backend c = Iterated \<and> window c \<le> i then Suc i else i)"

text \<open>The continuation waits on \<open>Promise.race\<close>: \<open>next\<close> may still run.\<close>

definition isRacing :: "phase \<Rightarrow> bool" where
  "isRacing p = (case p of Racing snap \<Rightarrow> True | _ \<Rightarrow> False)"

text \<open>
  Every task admitted is the one the work function returned for the item at the position
  of its index; and while \<open>next\<close> may still run, the iterator holds what follows the
  position of the next index.
\<close>

definition tracked :: "('a, 'r, 'e) call \<Rightarrow> ('a, 'r, 'e) state \<Rightarrow> bool" where
  "tracked c s \<longleftrightarrow>
     (\<forall>i < currentIndex s. srcpos c i < length (source c) \<and>
        cb c (source c ! srcpos c i) i = Returns (started s ! i)) \<and>
     (backend c = Iterated \<and> isRacing (phase s) \<longrightarrow>
        iter s = drop (srcpos c (currentIndex s)) (source c) \<and>
        (currentIndex s < window c \<longrightarrow> length (source c) \<le> currentIndex s))"

text \<open>
  An index is handled once its task was admitted and the \<open>then\<close> or \<open>catch\<close> handler of
  its task has run. \<open>cell\<close> is the outcome known for an index: that of its task once
  handled, nothing before.
\<close>

definition handled :: "('a, 'r, 'e) state \<Rightarrow> nat \<Rightarrow> bool" where
  "handled s i \<longleftrightarrow>
     i < currentIndex s \<and> i \<notin> set (map index (filter (\<lambda>t. stage t = Running) (tasks s)))"

definition cell :: "('a, 'r, 'e) state \<Rightarrow> nat \<Rightarrow> ('r, 'e) outcome option" where
  "cell s i = (if handled s i then Some (started s ! i) else None)"

fun valueOf :: "('r, 'e) outcome option \<Rightarrow> 'r option" where
  "valueOf (Some (Fulfils r)) = Some r"
| "valueOf x = None"

fun errorOf :: "('r, 'e) outcome option \<Rightarrow> 'e option" where
  "errorOf (Some (Rejects e)) = Some e"
| "errorOf x = None"

fun resultOf :: "('r, 'e) outcome option \<Rightarrow> ('r, 'e) Result option" where
  "resultOf (Some (Fulfils r)) = Some (Ok r)"
| "resultOf (Some (Rejects e)) = Some (Err e)"
| "resultOf None = None"

text \<open>
  The iterator version with a window that is no array length: \<open>new Array(threads)\<close>
  throws.
\<close>

definition badLength :: "('a, 'r, 'e) call \<Rightarrow> bool" where
  "badLength c \<longleftrightarrow> backend c = Iterated \<and> arrayLength (r_threads (opts c)) = None"

text \<open>
  The length an output array has: that of the source in the array version; in the
  iterator version, once \<open>new Array(threads)\<close> has made the array, the window, or the
  number of tasks admitted when that is more (one more after a throw in \<open>put\<close>, which has
  grown the arrays by then).
\<close>

definition sized :: "('a, 'r, 'e) call \<Rightarrow> ('a, 'r, 'e) state \<Rightarrow> nat \<Rightarrow> bool" where
  "sized c s n \<longleftrightarrow>
     currentIndex s \<le> n \<and>
     (case backend c of
        Indexed \<Rightarrow> n = length (source c)
      | Iterated \<Rightarrow>
          \<not> badLength c \<longrightarrow>
            max (window c) (currentIndex s) \<le> n \<and>
            (promises c \<longrightarrow> n = max (window c) (currentIndex s)))"

text \<open>What the output of \<open>runDependently\<close> holds, cell by cell.\<close>

definition recordedOut :: "('a, 'r, 'e) call \<Rightarrow> ('a, 'r, 'e) state \<Rightarrow> bool" where
  "recordedOut c s \<longleftrightarrow>
     sized c s (length (out s)) \<and>
     (\<forall>i < length (out s). out s ! i = valueOf (cell s i))"

text \<open>What the bundle of \<open>runIndependently\<close> holds.\<close>

definition recordedBundle :: "('a, 'r, 'e) call \<Rightarrow> ('a, 'r, 'e) state \<Rightarrow> bool" where
  "recordedBundle c s \<longleftrightarrow>
     sized c s (length (results s)) \<and> length (values' s) = length (results s) \<and>
     (\<forall>i < length (results s).
        results s ! i = resultOf (cell s i) \<and> values' s ! i = valueOf (cell s i)) \<and>
     (\<forall>i. errors s i = errorOf (cell s i)) \<and>
     (ok s \<longleftrightarrow> (\<forall>i < currentIndex s. errorOf (cell s i) = None))"

text \<open>
  How the promise, the phase and the calls of \<open>reject\<close> go together. When the executor has
  ended without an exception, the promise is rejected exactly when \<open>reject\<close> has been
  called, with the error of its first call; and when the work function never throws, the
  continuation has not ended while the promise is pending.
\<close>

definition settling :: "('a, 'r, 'e) call \<Rightarrow> ('a, 'r, 'e) state \<Rightarrow> bool" where
  "settling c s \<longleftrightarrow>
     (promise s = Resolved \<longrightarrow> tasks s = [] \<and> phase s = Stopped) \<and>
     (throwed s \<longleftrightarrow> rejections s \<noteq> []) \<and>
     (\<forall>e. e \<in> set (rejections s) \<longleftrightarrow>
        policy c = Dependently \<and> (\<exists>i < currentIndex s. cell s i = Some (Rejects e))) \<and>
     (badLength c \<longrightarrow> tasks s = [] \<and> phase s = Stopped \<and> promise s = Rejected RangeError) \<and>
     (promise (start c) = Pending \<longrightarrow>
        (case rejections s of
           [] \<Rightarrow> promise s = Pending \<or> promise s = Resolved
         | e # es \<Rightarrow> promise s = Rejected (Failure e))) \<and>
     (promises c \<longrightarrow> phase s = Stopped \<longrightarrow> promise s \<noteq> Pending)"

text \<open>A call whose \<open>isCanceled\<close> is absent or never answers true.\<close>

definition neverCanceled :: "('a, 'r, 'e) call \<Rightarrow> bool" where
  "neverCanceled c \<longleftrightarrow>
     (case r_isCanceled (opts c) of None \<Rightarrow> True | Some p \<Rightarrow> (\<forall>n. \<not> p n))"

text \<open>
  A bound on the events still to come: every event makes it smaller. An item not yet
  admitted counts 4, a task 3, 2 or 1 by its stage, the continuation 2, 1 or 0.
\<close>

fun stageWeight :: "stage \<Rightarrow> nat" where
  "stageWeight Running = 3"
| "stageWeight Handled = 2"
| "stageWeight Settled = 1"

fun phaseWeight :: "phase \<Rightarrow> nat" where
  "phaseWeight (Racing snap) = 2"
| "phaseWeight (Draining snap) = 1"
| "phaseWeight Stopped = 0"

definition remaining :: "('a, 'r, 'e) call \<Rightarrow> ('a, 'r, 'e) state \<Rightarrow> nat" where
  "remaining c s =
     (case backend c of
        Indexed \<Rightarrow> length (source c) - currentIndex s
      | Iterated \<Rightarrow> length (iter s))"

definition weight :: "('a, 'r, 'e) call \<Rightarrow> ('a, 'r, 'e) state \<Rightarrow> nat" where
  "weight c s =
     4 * remaining c s + sum_list (map (\<lambda>t. stageWeight (stage t)) (tasks s)) +
     phaseWeight (phase s)"

text \<open>A state in which no event can happen: the run has ended there.\<close>

definition final :: "('a, 'r, 'e) call \<Rightarrow> ('a, 'r, 'e) state \<Rightarrow> bool" where
  "final c s \<longleftrightarrow>
     fire c Wake s = None \<and>
     (\<forall>t \<in> set (tasks s). fire c (Handle (index t)) s = None \<and>
        fire c (Finish (index t)) s = None \<and> fire c (Dequeue (index t)) s = None)"

section \<open>Example calls\<close>

text \<open>
  The work function of the README's example, when it succeeds: a promise that fulfils
  with twice the item.
\<close>

definition doubling :: "int \<Rightarrow> nat \<Rightarrow> (int, string) reply" where
  "doubling x i = Returns (Fulfils (x * 2))"

text \<open>Options that give only \<open>threads\<close>.\<close>

definition threadsOnly :: "rat \<Rightarrow> IOptions option" where
  "threadsOnly n = Some \<lparr>threads = Num (Fin n), isCanceled = Missing, onProgress = Missing\<rparr>"

text \<open>Options with \<open>threads\<close> and a predicate \<open>isCanceled\<close>.\<close>

definition cancelling :: "rat \<Rightarrow> (nat \<Rightarrow> bool) \<Rightarrow> IOptions option" where
  "cancelling n p = Some \<lparr>threads = Num (Fin n), isCanceled = Func p, onProgress = Missing\<rparr>"

text \<open>
  A work function whose promise rejects at every even index and fulfils, with twice the
  item, at every odd index.
\<close>

definition evenFails :: "int \<Rightarrow> nat \<Rightarrow> (int, string) reply" where
  "evenFails x i = Returns (if even i then Rejects ''even'' else Fulfils (x * 2))"

text \<open>
  A schedule in which the tasks settle one after the other, in the order of their
  indices, the continuation running as soon as it can: the first \<open>m\<close> tasks each followed
  by a turn of the continuation, then \<open>n\<close> more tasks, then a last turn.
\<close>

definition inOrder :: "nat \<Rightarrow> nat \<Rightarrow> event list" where
  "inOrder m n =
     concat (map (\<lambda>j. [Handle j, Finish j, Dequeue j, Wake]) [0..<m]) @
     concat (map (\<lambda>j. [Handle j, Finish j, Dequeue j]) [m..<m + n]) @ [Wake]"


text \<open>
  A work function whose promise always rejects, with its index as the error, and a call
  of \<open>runDependently\<close> with it.
\<close>

definition rejectsIndex :: "int \<Rightarrow> nat \<Rightarrow> (int, nat) reply" where
  "rejectsIndex x i = Returns (Rejects i)"

definition failingRun :: "(int, int, nat) call" where
  "failingRun = runDependently Indexed [1, 2, 3] rejectsIndex (threadsOnly 2) initialDefaultThreads"

text \<open>
  Two work functions that fail at index \<open>k\<close> only, with the same error: the first throws
  before it returns, the second returns a promise that rejects.
\<close>

definition throwsAt :: "nat \<Rightarrow> int \<Rightarrow> nat \<Rightarrow> (int, string) reply" where
  "throwsAt k x i = (if i = k then Throws ''boom'' else Returns (Fulfils (x * 2)))"




text \<open>
  Calls of \<open>runIndependently\<close> in the iterator version with window 2 and an \<open>isCanceled\<close>
  that always answers true: over one item, and over five.
\<close>

definition cancelledShort :: "(int, int, string) call" where
  "cancelledShort = runIndependently Iterated [1] doubling (cancelling 2 (\<lambda>n. True)) initialDefaultThreads"

definition cancelledLong :: "(int, int, string) call" where
  "cancelledLong = runIndependently Iterated [1, 2, 3, 4, 5] doubling (cancelling 2 (\<lambda>n. True)) initialDefaultThreads"

text \<open>A call of \<open>runDependently\<close> over three items with the window 2.5.\<close>

definition fractional :: "(int, int, string) call" where
  "fractional = runDependently Indexed [1, 2, 3] doubling (threadsOnly (5 / 2)) initialDefaultThreads"

text \<open>
  A work function that returns a promise that rejects for the first item and throws for
  every other item, and a call of \<open>runDependently\<close> with it over two items.
\<close>

definition rejectsThenThrows :: "int \<Rightarrow> nat \<Rightarrow> (int, string) reply" where
  "rejectsThenThrows x i = (if i = 0 then Returns (Rejects ''a'') else Throws ''b'')"

definition overtaken :: "(int, int, string) call" where
  "overtaken = runDependently Indexed [1, 2] rejectsThenThrows (threadsOnly 2) initialDefaultThreads"


text \<open>
  A call of \<open>runDependently\<close> over three items with window 2 and an \<open>isCanceled\<close> that
  always answers true, whose work function throws for the second item.
\<close>

definition cancelledThrowing :: "(int, int, string) call" where
  "cancelledThrowing =
     runDependently Indexed [1, 2, 3] (throwsAt 1) (cancelling 2 (\<lambda>n. True)) initialDefaultThreads"

section \<open>Fields that a step leaves alone\<close>

lemma handlers_fields [simp]:
  "tasks (handlers c i f s) = tasks s"
  "currentIndex (handlers c i f s) = currentIndex s"
  "readyCount (handlers c i f s) = readyCount s"
  "iter (handlers c i f s) = iter s"
  "phase (handlers c i f s) = phase s"
  "progress (handlers c i f s) = progress s"
  "polls (handlers c i f s) = polls s"
  "started (handlers c i f s) = started s"
  by (simp_all add: handlers_def reject_def split: policy.splits outcome.splits)

lemma finally_fields [simp]:
  "tasks (finally' c s) = tasks s"
  "currentIndex (finally' c s) = currentIndex s"
  "readyCount (finally' c s) = Suc (readyCount s)"
  "iter (finally' c s) = iter s"
  "phase (finally' c s) = phase s"
  "polls (finally' c s) = polls s"
  "started (finally' c s) = started s"
  "promise (finally' c s) = promise s"
  "throwed (finally' c s) = throwed s"
  "rejections (finally' c s) = rejections s"
  "out (finally' c s) = out s"
  "results (finally' c s) = results s"
  "values' (finally' c s) = values' s"
  "errors (finally' c s) = errors s"
  "ok (finally' c s) = ok s"
  by (simp_all add: finally'_def Let_def)

lemma dequeue_fields [simp]:
  "tasks (dequeue i s) = filter (\<lambda>t. index t \<noteq> i) (tasks s)"
  "currentIndex (dequeue i s) = currentIndex s"
  "readyCount (dequeue i s) = readyCount s"
  "iter (dequeue i s) = iter s"
  "phase (dequeue i s) = phase s"
  "polls (dequeue i s) = polls s"
  "progress (dequeue i s) = progress s"
  "started (dequeue i s) = started s"
  "promise (dequeue i s) = promise s"
  "throwed (dequeue i s) = throwed s"
  "rejections (dequeue i s) = rejections s"
  "out (dequeue i s) = out s"
  "results (dequeue i s) = results s"
  "values' (dequeue i s) = values' s"
  "errors (dequeue i s) = errors s"
  "ok (dequeue i s) = ok s"
  by (simp_all add: dequeue_def)

lemma res_fields [simp]:
  "tasks (res s) = tasks s"
  "currentIndex (res s) = currentIndex s"
  "readyCount (res s) = readyCount s"
  "iter (res s) = iter s"
  "phase (res s) = Stopped"
  "polls (res s) = polls s"
  "progress (res s) = progress s"
  "started (res s) = started s"
  "promise (res s) = (if promise s = Pending then Resolved else promise s)"
  "throwed (res s) = throwed s"
  "rejections (res s) = rejections s"
  "out (res s) = out s"
  "results (res s) = results s"
  "values' (res s) = values' s"
  "errors (res s) = errors s"
  "ok (res s) = ok s"
  by (simp_all add: res_def)

text \<open>What \<open>put\<close> leaves alone, whether it throws or not.\<close>

lemma put_Inr_fields:
  assumes "put c v s = Inr s'"
  shows "\<exists>f. cb c v (currentIndex s) = Returns f \<and>
           tasks s' = tasks s @ [\<lparr>index = currentIndex s, fate = f, stage = Running\<rparr>] \<and>
           started s' = started s @ [f]"
    and "currentIndex s' = Suc (currentIndex s)"
    and "readyCount s' = readyCount s" and "iter s' = iter s" and "phase s' = phase s"
    and "polls s' = polls s" and "progress s' = progress s" and "promise s' = promise s"
    and "throwed s' = throwed s" and "rejections s' = rejections s"
    and "errors s' = errors s" and "ok s' = ok s"
  using assms
  by (auto simp: put_def Let_def split: reply.splits backend.splits policy.splits)

lemma put_Inl_fields:
  assumes "put c v s = Inl (e, s')"
  shows "cb c v (currentIndex s) = Throws e"
    and "tasks s' = tasks s" and "started s' = started s"
    and "currentIndex s' = currentIndex s"
    and "readyCount s' = readyCount s" and "iter s' = iter s" and "phase s' = phase s"
    and "polls s' = polls s" and "progress s' = progress s" and "promise s' = promise s"
    and "throwed s' = throwed s" and "rejections s' = rejections s"
    and "errors s' = errors s" and "ok s' = ok s"
  using assms
  by (auto simp: put_def Let_def split: reply.splits backend.splits policy.splits)

section \<open>The pre-fill\<close>

lemma admitting_init: "admitting c (init c)"
  by (simp add: admitting_def init_def Let_def)

lemma setLength_same [simp]: "n \<le> length xs \<Longrightarrow> setLength xs (max (length xs) n) = xs"
  by (simp add: setLength_def max_def)

lemma setLength_length: "length xs = n \<Longrightarrow> setLength xs n = xs"
  by (simp add: setLength_def)

lemma below_ceiling: "below k (Fin q) \<longleftrightarrow> k < nat \<lceil>q\<rceil>"
proof -
  have "of_nat k < q \<longleftrightarrow> int k < \<lceil>q\<rceil>"
    by (simp add: less_ceiling_iff)
  then show ?thesis by (simp add: zless_nat_eq_int_zless)
qed

lemma window_less:
  "r_threads (opts c) \<noteq> PosInf \<or> k < length (source c) \<Longrightarrow>
   below k (r_threads (opts c)) \<longleftrightarrow> k < window c"
proof (cases "r_threads (opts c)")
  case (Fin q)
  with below_ceiling [of k q] show ?thesis by (simp add: window_def)
qed (simp_all add: window_def)

lemma window_less_conj:
  "below k (r_threads (opts c)) \<and> k < length (source c) \<longleftrightarrow>
   k < window c \<and> k < length (source c)"
  using window_less [of c k] by blast

lemma arrayLength_window:
  assumes "arrayLength (r_threads (opts c)) = Some n"
  shows "window c = n"
proof (cases "r_threads (opts c)")
  case (Fin q)
  with assms have q: "of_int \<lfloor>q\<rfloor> = q" and n: "n = nat \<lfloor>q\<rfloor>"
    by (auto split: if_splits)
  from q have "\<lceil>q\<rceil> = \<lfloor>q\<rfloor>" by (metis ceiling_of_int)
  with Fin n show ?thesis by (simp add: window_def)
qed (use assms in simp_all)

lemma good_length:
  assumes "backend c = Iterated" and "\<not> badLength c"
  obtains n where "arrayLength (r_threads (opts c)) = Some n" and "window c = n"
  using assms arrayLength_window [of c] by (auto simp: badLength_def)

lemma window_less_iter:
  assumes "backend c = Iterated" and "\<not> badLength c"
  shows "below k (r_threads (opts c)) \<longleftrightarrow> k < window c"
proof -
  from assms have "r_threads (opts c) \<noteq> PosInf"
    by (auto simp: badLength_def)
  with window_less [of c k] show ?thesis by blast
qed

lemma badLength_Indexed [simp]: "backend c = Indexed \<Longrightarrow> \<not> badLength c"
  by (simp add: badLength_def)

lemma init_lengths:
  assumes "backend c = Iterated" and "\<not> badLength c"
  shows "policy c = Dependently \<Longrightarrow> length (out (init c)) = window c"
    and "policy c = Independently \<Longrightarrow> length (results (init c)) = window c"
    and "policy c = Independently \<Longrightarrow> length (values' (init c)) = window c"
proof -
  from assms obtain n where n: "arrayLength (r_threads (opts c)) = Some n" "window c = n"
    by (rule good_length)
  show "policy c = Dependently \<Longrightarrow> length (out (init c)) = window c"
    using n assms(1) by (simp add: init_def Let_def)
  show "policy c = Independently \<Longrightarrow> length (results (init c)) = window c"
    using n assms(1) by (simp add: init_def Let_def)
  show "policy c = Independently \<Longrightarrow> length (values' (init c)) = window c"
    using n assms(1) by (simp add: init_def Let_def)
qed

lemma put_arrays:
  assumes "put c v s = Inr s' \<or> put c v s = Inl (e, s')"
  shows "out s' = (if backend c = Iterated \<and> policy c = Dependently
                   then setLength (out s) (max (length (out s)) (Suc (currentIndex s))) else out s)"
    and "results s' = (if backend c = Iterated \<and> policy c = Independently
                   then setLength (results s) (max (length (results s)) (Suc (currentIndex s)))
                   else results s)"
    and "values' s' = (if backend c = Iterated \<and> policy c = Independently
                   then setLength (values' s) (max (length (values' s)) (Suc (currentIndex s)))
                   else values' s)"
  using assms
  by (auto simp: put_def Let_def split: reply.splits backend.splits policy.splits)

lemma upt_index_less: "map index ts = [0..<k] \<Longrightarrow> t \<in> set ts \<Longrightarrow> index t < k"
  by (metis atLeastLessThan_iff imageI set_map set_upt)

lemma admitting_arrays:
  assumes "admitting c s" and "currentIndex s < window c"
    and "put c v s = Inr s' \<or> put c v s = Inl (e, s')" and "\<not> badLength c"
  shows "out s' = out (init c) \<and> results s' = results (init c) \<and> values' s' = values' (init c)"
proof -
  have eq: "out s = out (init c)" "results s = results (init c)" "values' s = values' (init c)"
    using assms(1) by (simp_all add: admitting_def)
  show ?thesis
  proof (cases "backend c")
    case Indexed
    with put_arrays [OF assms(3)] show ?thesis by (simp add: eq)
  next
    case Iterated
    with put_arrays [OF assms(3)] assms(2) init_lengths [OF Iterated assms(4)] show ?thesis
      by (cases "policy c") (auto simp: eq max_def setLength_length)
  qed
qed

lemma admitting_put_Inl:
  assumes "admitting c s" and "currentIndex s < window c" and "put c v s = Inl (e, s')"
    and "\<not> badLength c"
  shows "admitting c s'"
  using assms(1) put_Inl_fields [OF assms(3)]
    admitting_arrays [OF assms(1,2) _ assms(4), of v s' e] assms(3)
  by (simp add: admitting_def)

lemma admitting_put_Inr:
  assumes "admitting c s" and "currentIndex s < window c" and "currentIndex s < length (source c)"
    and "put c (source c ! currentIndex s) s = Inr s'" and "\<not> badLength c"
  shows "admitting c s'"
proof -
  obtain f where f: "cb c (source c ! currentIndex s) (currentIndex s) = Returns f"
    "tasks s' = tasks s @ [\<lparr>index = currentIndex s, fate = f, stage = Running\<rparr>]"
    "started s' = started s @ [f]"
    using put_Inr_fields(1) [OF assms(4)] by blast
  note rest = put_Inr_fields(2-) [OF assms(4)]
  have idx: "index t < currentIndex s" if "t \<in> set (tasks s)" for t
  proof -
    from assms(1) have "map index (tasks s) = [0..<currentIndex s]"
      by (simp add: admitting_def)
    from upt_index_less [OF this that] show ?thesis .
  qed
  have arr: "out s' = out (init c) \<and> results s' = results (init c) \<and> values' s' = values' (init c)"
    using admitting_arrays [OF assms(1,2) _ assms(5), of "source c ! currentIndex s" s'] assms(4)
    by simp
  show ?thesis
    unfolding admitting_def
    using assms(1-3) f rest arr idx
    by (auto simp: admitting_def nth_append less_Suc_eq)
qed

lemma admitting_iter [simp]: "admitting c (s\<lparr>iter := xs\<rparr>) = admitting c s"
  by (simp add: admitting_def)

lemma whileLoop_admitting:
  "admitting c s \<Longrightarrow> \<not> badLength c \<Longrightarrow>
   (case whileLoop c s of
      Inl (e, s') \<Rightarrow> admitting c s' \<and> currentIndex s' < window c \<and>
        currentIndex s' < length (source c) \<and>
        cb c (source c ! currentIndex s') (currentIndex s') = Throws e
    | Inr s' \<Rightarrow> admitting c s' \<and> currentIndex s' = min (window c) (length (source c)))"
proof (induction c s rule: whileLoop.induct)
  case (1 c s)
  show ?case
  proof (cases "currentIndex s < window c \<and> currentIndex s < length (source c)")
    case False
    then have "\<not> (below (currentIndex s) (r_threads (opts c)) \<and>
        currentIndex s < length (source c))"
      using window_less_conj [of "currentIndex s" c] by blast
    with "1.prems" False show ?thesis
      by (subst whileLoop.simps) (auto simp: admitting_def)
  next
    case True
    then have b: "below (currentIndex s) (r_threads (opts c))"
      using window_less [of c "currentIndex s"] by simp
    show ?thesis
    proof (cases "put c (source c ! currentIndex s) s")
      case (Inl x)
      obtain e s' where x: "x = (e, s')" by (cases x)
      from Inl x "1.prems" True put_Inl_fields [of c "source c ! currentIndex s" s e s']
        admitting_put_Inl [of c s "source c ! currentIndex s" e s']
      show ?thesis
        by (subst whileLoop.simps) (simp add: b)
    next
      case (Inr s')
      have "admitting c s'"
        using admitting_put_Inr [of c s s'] "1.prems" True Inr by simp
      with "1.IH" [of s'] "1.prems" True Inr b show ?thesis
        by (subst whileLoop.simps) simp
    qed
  qed
qed

lemma forLoop_admitting:
  "admitting c s \<Longrightarrow> xs = drop (currentIndex s) (source c) \<Longrightarrow>
   backend c = Iterated \<Longrightarrow> \<not> badLength c \<Longrightarrow>
   (case forLoop c xs s of
      Inl (e, s') \<Rightarrow> admitting c s' \<and> currentIndex s' < window c \<and>
        currentIndex s' < length (source c) \<and>
        cb c (source c ! currentIndex s') (currentIndex s') = Throws e
    | Inr s' \<Rightarrow> admitting c s' \<and> currentIndex s' = min (window c) (length (source c)) \<and>
        iter s' = drop (Suc (window c)) (source c))"
proof (induction xs arbitrary: s)
  case Nil
  then have "length (source c) \<le> currentIndex s" by simp
  moreover from Nil have "currentIndex s \<le> window c" "currentIndex s \<le> length (source c)"
    by (simp_all add: admitting_def)
  ultimately show ?case using Nil by simp
next
  case (Cons v rest)
  from Cons.prems(2) have k: "currentIndex s < length (source c)"
    by (metis drop_eq_Nil2 list.distinct(1) not_le)
  from Cons.prems(2) have v: "v = source c ! currentIndex s"
    by (metis Cons_nth_drop_Suc k list.inject)
  from Cons.prems(2) have rest: "rest = drop (Suc (currentIndex s)) (source c)"
    by (metis Cons_nth_drop_Suc k list.inject)
  from Cons.prems(1) have le: "currentIndex s \<le> window c"
    by (simp add: admitting_def)
  let ?s = "s\<lparr>iter := rest\<rparr>"
  note window_less = window_less_iter [OF Cons.prems(3,4)]
  have adm: "admitting c ?s" using Cons.prems(1) by simp
  show ?case
  proof (cases "currentIndex s < window c")
    case False
    with le have "currentIndex s = window c" by simp
    with False k adm rest show ?thesis
      by (simp add: window_less min_def)
  next
    case True
    show ?thesis
    proof (cases "put c v ?s")
      case (Inl x)
      obtain e s' where x: "x = (e, s')" by (cases x)
      from Inl x True k v put_Inl_fields [of c v ?s e s']
        admitting_put_Inl [of c ?s v e s'] adm Cons.prems(4)
      show ?thesis
        by (simp add: window_less)
    next
      case (Inr s')
      have "admitting c s'"
        using admitting_put_Inr [of c ?s s'] adm True k v Inr Cons.prems(4) by simp
      moreover have "rest = drop (currentIndex s') (source c)"
        using rest put_Inr_fields(2) [OF Inr] by simp
      ultimately show ?thesis
        using Cons.IH [of s'] True Inr Cons.prems(3,4) by (simp add: window_less)
    qed
  qed
qed

section \<open>The state after the executor\<close>

text \<open>
  The executor ends in one of three ways: \<open>new Array\<close> threw, the work function threw
  during the pre-fill, or the pre-fill ran through and the continuation waits for the
  first task.
\<close>

lemma start_shape:
  "(badLength c \<and> start c = (init c)\<lparr>promise := Rejected RangeError\<rparr>) \<or>
   (\<exists>e s. \<not> badLength c \<and>
      admitting c s \<and> currentIndex s < window c \<and> currentIndex s < length (source c) \<and>
      cb c (source c ! currentIndex s) (currentIndex s) = Throws e \<and>
      start c = s\<lparr>promise := Rejected (Failure e)\<rparr>) \<or>
   (\<exists>s. \<not> badLength c \<and>
      admitting c s \<and> currentIndex s = min (window c) (length (source c)) \<and>
      (backend c = Iterated \<longrightarrow> iter s = drop (Suc (window c)) (source c)) \<and>
      start c = s\<lparr>phase := Racing (map index (tasks s))\<rparr>)"
proof (cases "badLength c")
  case True
  then show ?thesis by (simp add: start_def badLength_def)
next
  case False
  define r where "r = (case backend c of Indexed \<Rightarrow> whileLoop c (init c)
            | Iterated \<Rightarrow> forLoop c (source c) (init c))"
  have st: "start c = (case r of Inl (e, s) \<Rightarrow> s\<lparr>promise := Rejected (Failure e)\<rparr>
            | Inr s \<Rightarrow> (if policy c = Dependently \<and> throwed s then s
                 else s\<lparr>phase := Racing (map index (tasks s))\<rparr>))"
    using False by (auto simp: start_def r_def badLength_def)
  have init0: "currentIndex (init c) = 0" by (simp add: init_def Let_def)
  have inl: "admitting c s' \<and> currentIndex s' < window c \<and>
        currentIndex s' < length (source c) \<and>
        cb c (source c ! currentIndex s') (currentIndex s') = Throws e"
    if "r = Inl (e, s')" for e s'
  proof (cases "backend c")
    case Indexed
    with that have "whileLoop c (init c) = Inl (e, s')" by (simp add: r_def)
    with whileLoop_admitting [OF admitting_init False] show ?thesis by simp
  next
    case Iterated
    with that have "forLoop c (source c) (init c) = Inl (e, s')" by (simp add: r_def)
    with forLoop_admitting [OF admitting_init _ Iterated False, of "source c"] init0
    show ?thesis by simp
  qed
  have inr: "admitting c s' \<and> currentIndex s' = min (window c) (length (source c)) \<and>
        (backend c = Iterated \<longrightarrow> iter s' = drop (Suc (window c)) (source c))"
    if "r = Inr s'" for s'
  proof (cases "backend c")
    case Indexed
    with that have "whileLoop c (init c) = Inr s'" by (simp add: r_def)
    with whileLoop_admitting [OF admitting_init False] Indexed show ?thesis by simp
  next
    case Iterated
    with that have "forLoop c (source c) (init c) = Inr s'" by (simp add: r_def)
    with forLoop_admitting [OF admitting_init _ Iterated False, of "source c"] init0
    show ?thesis by simp
  qed
  show ?thesis
  proof (cases r)
    case (Inl x)
    obtain e s where x: "x = (e, s)" by (cases x)
    have "start c = s\<lparr>promise := Rejected (Failure e)\<rparr>"
      using st Inl x by simp
    with inl [of e s] Inl x False show ?thesis by blast
  next
    case (Inr s)
    with inr [of s] have adm: "admitting c s" by simp
    then have "\<not> throwed s" by (simp add: admitting_def)
    with Inr st have "start c = s\<lparr>phase := Racing (map index (tasks s))\<rparr>"
      by simp
    with Inr inr [of s] False show ?thesis by blast
  qed
qed

lemma admitting_structured:
  assumes "admitting c s"
  shows "structured c (s\<lparr>promise := p\<rparr>)" and "structured c (s\<lparr>phase := Racing (map index (tasks s))\<rparr>)"
proof -
  from assms have m: "map index (tasks s) = [0..<currentIndex s]"
    and run: "\<forall>t \<in> set (tasks s). stage t = Running \<and> fate t = started s ! index t"
    and rest: "length (started s) = currentIndex s" "currentIndex s \<le> window c"
      "readyCount s = 0" "phase s = Stopped"
    by (simp_all add: admitting_def)
  have len: "length (tasks s) = currentIndex s"
    using m by (metis length_map length_upt minus_nat.diff_0)
  have d: "distinct (map index (tasks s))" using m by simp
  have lt: "\<forall>t \<in> set (tasks s). index t < currentIndex s"
    using m upt_index_less by blast
  have f: "filter (\<lambda>t. stage t \<noteq> Settled) (tasks s) = tasks s"
    using run by (simp add: filter_id_conv)
  show "structured c (s\<lparr>promise := p\<rparr>)"
    using d lt run rest len f by (simp add: structured_def)
  show "structured c (s\<lparr>phase := Racing (map index (tasks s))\<rparr>)"
    using d lt run rest len f by (simp add: structured_def)
qed

lemma structured_init: "structured c ((init c)\<lparr>promise := p\<rparr>)"
  using admitting_structured(1) [OF admitting_init] .

lemma structured_start: "structured c (start c)"
proof -
  consider "start c = (init c)\<lparr>promise := Rejected RangeError\<rparr>"
    | e s where "admitting c s" "start c = s\<lparr>promise := Rejected (Failure e)\<rparr>"
    | s where "admitting c s" "start c = s\<lparr>phase := Racing (map index (tasks s))\<rparr>"
    using start_shape [of c] by blast
  then show ?thesis
  proof cases
    case 1
    then show ?thesis by (simp add: structured_init)
  next
    case 2
    then show ?thesis by (simp add: admitting_structured(1))
  next
    case 3
    then show ?thesis by (simp add: admitting_structured(2))
  qed
qed

section \<open>Lists of tasks\<close>

lemma find_holds: "find P xs = Some x \<Longrightarrow> P x \<and> x \<in> set xs"
  by (induction xs) (auto split: if_splits)

lemma find_None_none: "find P xs = None \<longleftrightarrow> (\<forall>x \<in> set xs. \<not> P x)"
  by (induction xs) auto

lemma setStage_index [simp]: "map index (setStage i st ts) = map index ts"
  by (induction ts) (auto simp: setStage_def)

lemma setStage_length [simp]: "length (setStage i st ts) = length ts"
  by (simp add: setStage_def)

lemma setStage_member:
  "u \<in> set (setStage i st ts) \<Longrightarrow>
   \<exists>t \<in> set ts. index u = index t \<and> fate u = fate t \<and>
     (if index t = i then stage u = st else stage u = stage t)"
  by (auto simp: setStage_def)

lemma setStage_absent: "i \<notin> index ` set ts \<Longrightarrow> setStage i st ts = ts"
  by (induction ts) (auto simp: setStage_def)

lemma filter_absent: "i \<notin> index ` set ts \<Longrightarrow> filter (\<lambda>t. index t \<noteq> i) ts = ts"
  by (induction ts) auto

lemma unsettled_keep:
  "distinct (map index ts) \<Longrightarrow> t \<in> set ts \<Longrightarrow> index t = i \<Longrightarrow> stage t \<noteq> Settled \<Longrightarrow>
   st \<noteq> Settled \<Longrightarrow>
   length (filter (\<lambda>t. stage t \<noteq> Settled) (setStage i st ts)) =
   length (filter (\<lambda>t. stage t \<noteq> Settled) ts)"
proof (induction ts)
  case Nil
  then show ?case by simp
next
  case (Cons a ts)
  show ?case
  proof (cases "index a = i")
    case True
    with Cons.prems have a: "a = t" by (metis distinct.simps(2) image_eqI list.simps(9) set_ConsD set_map)
    have "setStage i st ts = ts"
      using Cons.prems(1) True by (simp add: setStage_absent)
    with a Cons.prems True show ?thesis by (simp add: setStage_def)
  next
    case False
    with Cons show ?thesis by (auto simp: setStage_def)
  qed
qed

lemma unsettled_drop:
  "distinct (map index ts) \<Longrightarrow> t \<in> set ts \<Longrightarrow> index t = i \<Longrightarrow> stage t \<noteq> Settled \<Longrightarrow>
   Suc (length (filter (\<lambda>t. stage t \<noteq> Settled) (setStage i Settled ts))) =
   length (filter (\<lambda>t. stage t \<noteq> Settled) ts)"
proof (induction ts)
  case Nil
  then show ?case by simp
next
  case (Cons a ts)
  show ?case
  proof (cases "index a = i")
    case True
    with Cons.prems have a: "a = t" by (metis distinct.simps(2) image_eqI list.simps(9) set_ConsD set_map)
    have "setStage i Settled ts = ts"
      using Cons.prems(1) True by (simp add: setStage_absent)
    with a Cons.prems True show ?thesis by (simp add: setStage_def)
  next
    case False
    with Cons show ?thesis by (auto simp: setStage_def)
  qed
qed

lemma unsettled_dequeue:
  "distinct (map index ts) \<Longrightarrow> t \<in> set ts \<Longrightarrow> index t = i \<Longrightarrow> stage t = Settled \<Longrightarrow>
   length (filter (\<lambda>t. stage t \<noteq> Settled) (filter (\<lambda>t. index t \<noteq> i) ts)) =
   length (filter (\<lambda>t. stage t \<noteq> Settled) ts)"
proof (induction ts)
  case Nil
  then show ?case by simp
next
  case (Cons a ts)
  show ?case
  proof (cases "index a = i")
    case True
    with Cons.prems have a: "a = t" by (metis distinct.simps(2) image_eqI list.simps(9) set_ConsD set_map)
    have "filter (\<lambda>t. index t \<noteq> i) ts = ts"
      using Cons.prems(1) True by (simp add: filter_absent)
    with a Cons.prems True show ?thesis by simp
  next
    case False
    with Cons show ?thesis by auto
  qed
qed

lemma dequeue_shorter:
  "t \<in> set ts \<Longrightarrow> index t = i \<Longrightarrow> length (filter (\<lambda>t. index t \<noteq> i) ts) < length ts"
  by (metis (mono_tags, lifting) length_filter_less)

section \<open>Turns of \<open>next\<close>\<close>

lemma nextItem_fields [simp]:
  "tasks (snd (nextItem c s)) = tasks s"
  "currentIndex (snd (nextItem c s)) = currentIndex s"
  "readyCount (snd (nextItem c s)) = readyCount s"
  "phase (snd (nextItem c s)) = phase s"
  "polls (snd (nextItem c s)) = polls s"
  "progress (snd (nextItem c s)) = progress s"
  "started (snd (nextItem c s)) = started s"
  "promise (snd (nextItem c s)) = promise s"
  "throwed (snd (nextItem c s)) = throwed s"
  "rejections (snd (nextItem c s)) = rejections s"
  "out (snd (nextItem c s)) = out s"
  "results (snd (nextItem c s)) = results s"
  "values' (snd (nextItem c s)) = values' s"
  "errors (snd (nextItem c s)) = errors s"
  "ok (snd (nextItem c s)) = ok s"
  by (simp_all add: nextItem_def pull_def split: backend.splits list.splits)

lemma canceled_fields [simp]:
  "tasks (snd (canceled c s)) = tasks s"
  "currentIndex (snd (canceled c s)) = currentIndex s"
  "readyCount (snd (canceled c s)) = readyCount s"
  "phase (snd (canceled c s)) = phase s"
  "iter (snd (canceled c s)) = iter s"
  "progress (snd (canceled c s)) = progress s"
  "started (snd (canceled c s)) = started s"
  "promise (snd (canceled c s)) = promise s"
  "throwed (snd (canceled c s)) = throwed s"
  "rejections (snd (canceled c s)) = rejections s"
  "out (snd (canceled c s)) = out s"
  "results (snd (canceled c s)) = results s"
  "values' (snd (canceled c s)) = values' s"
  "errors (snd (canceled c s)) = errors s"
  "ok (snd (canceled c s)) = ok s"
  by (simp_all add: canceled_def split: option.splits)

lemma canceled_nextItem [simp]: "fst (canceled c (snd (nextItem c s))) = fst (canceled c s)"
  by (simp add: canceled_def split: option.splits)

lemma next'_unfold:
  "next' c s =
     (let s2 = snd (canceled c (snd (nextItem c s)))
      in if stopping c s then s2\<lparr>phase := Draining (map index (tasks s))\<rparr>
         else (case put c (the (fst (nextItem c s))) s2 of
                 Inl (e, s3) \<Rightarrow> s3\<lparr>phase := Stopped\<rparr>
               | Inr s3 \<Rightarrow> s3\<lparr>phase := Racing (map index (tasks s3))\<rparr>))"
  by (simp add: next'_def stopping_def Let_def case_prod_beta split: option.splits)

lemma next'_stop:
  assumes "stopping c s"
  shows "next' c s = (snd (canceled c (snd (nextItem c s))))\<lparr>phase := Draining (map index (tasks s))\<rparr>"
  using assms by (simp add: next'_unfold)

lemma next'_go:
  assumes "\<not> stopping c s"
  obtains (throw) v e s3 where "fst (nextItem c s) = Some v"
      "put c v (snd (canceled c (snd (nextItem c s)))) = Inl (e, s3)"
      "next' c s = s3\<lparr>phase := Stopped\<rparr>"
    | (admit) v s3 where "fst (nextItem c s) = Some v"
      "put c v (snd (canceled c (snd (nextItem c s)))) = Inr s3"
      "next' c s = s3\<lparr>phase := Racing (map index (tasks s3))\<rparr>"
proof -
  from assms obtain v where v: "fst (nextItem c s) = Some v"
    by (auto simp: stopping_def)
  show ?thesis
  proof (cases "put c v (snd (canceled c (snd (nextItem c s))))")
    case (Inl x)
    obtain e s3 where "x = (e, s3)" by (cases x)
    with Inl v assms throw show ?thesis by (simp add: next'_unfold)
  next
    case (Inr s3)
    with v assms admit show ?thesis by (simp add: next'_unfold)
  qed
qed

section \<open>Events, case by case\<close>

lemma fire_cases [consumes 1, case_names Handle Finish Dequeue Next Res]:
  assumes "fire c ev s = Some s'"
  obtains i t where "ev = Handle i" "t \<in> set (tasks s)" "index t = i" "stage t = Running"
      "s' = handlers c i (fate t) (s\<lparr>tasks := setStage i Handled (tasks s)\<rparr>)"
    | i t where "ev = Finish i" "t \<in> set (tasks s)" "index t = i" "stage t = Handled"
      "s' = finally' c (s\<lparr>tasks := setStage i Settled (tasks s)\<rparr>)"
    | i t where "ev = Dequeue i" "t \<in> set (tasks s)" "index t = i" "stage t = Settled"
      "s' = dequeue i s"
    | snap i where "ev = Wake" "phase s = Racing snap" "i \<in> set snap"
      "i \<notin> set (map index (tasks s))" "s' = next' c s"
    | snap where "ev = Wake" "phase s = Draining snap"
      "\<forall>i \<in> set snap. i \<notin> set (map index (tasks s))" "s' = res s"
proof (cases ev)
  case (Handle i)
  with assms obtain t where "find (\<lambda>t. index t = i \<and> stage t = Running) (tasks s) = Some t"
    "s' = handlers c i (fate t) (s\<lparr>tasks := setStage i Handled (tasks s)\<rparr>)"
    by (auto split: option.splits)
  with that(1) [of i t] Handle find_holds show ?thesis by fastforce
next
  case (Finish i)
  with assms obtain t where "find (\<lambda>t. index t = i \<and> stage t = Handled) (tasks s) = Some t"
    "s' = finally' c (s\<lparr>tasks := setStage i Settled (tasks s)\<rparr>)"
    by (auto split: option.splits)
  with that(2) [of i t] Finish find_holds show ?thesis by fastforce
next
  case (Dequeue i)
  with assms obtain t where "find (\<lambda>t. index t = i \<and> stage t = Settled) (tasks s) = Some t"
    "s' = dequeue i s"
    by (auto split: option.splits)
  with that(3) [of i t] Dequeue find_holds show ?thesis by fastforce
next
  case Wake
  show ?thesis
  proof (cases "phase s")
    case (Racing snap)
    with Wake assms that(4) [of snap] show ?thesis
      by (auto split: if_splits)
  next
    case (Draining snap)
    with Wake assms that(5) [of snap] show ?thesis
      by (auto split: if_splits)
  next
    case Stopped
    with Wake assms show ?thesis by simp
  qed
qed

section \<open>The tasks and the counters in every state\<close>

lemma structured_cong:
  "tasks s' = tasks s \<Longrightarrow> currentIndex s' = currentIndex s \<Longrightarrow> started s' = started s \<Longrightarrow>
   readyCount s' = readyCount s \<Longrightarrow> phase s' = phase s \<Longrightarrow> structured c s' = structured c s"
  by (simp add: structured_def cong: phase.case_cong)

lemma card_index_set: "distinct (map index ts) \<Longrightarrow> card (set (map index ts)) = length ts"
  by (metis distinct_card length_map)

lemma raced_room:
  assumes "structured c s" and "phase s = Racing snap" and "i \<in> set snap"
    and "i \<notin> set (map index (tasks s))"
  shows "length (tasks s) < window c"
proof -
  from assms(1,2) have sub: "set (map index (tasks s)) \<subseteq> set snap" and d: "distinct snap"
    and w: "length snap \<le> window c" and dt: "distinct (map index (tasks s))"
    by (simp_all add: structured_def)
  from sub assms(3,4) have "set (map index (tasks s)) \<subset> set snap" by blast
  then have "card (set (map index (tasks s))) < card (set snap)"
    by (simp add: psubset_card_mono)
  with card_index_set [OF dt] distinct_card [OF d] w show ?thesis by simp
qed

lemma structured_fire:
  assumes "structured c s" and "fire c ev s = Some s'"
  shows "structured c s'"
  using assms(2)
proof (cases rule: fire_cases)
  case (Handle i t)
  from assms(1) have d: "distinct (map index (tasks s))" by (simp add: structured_def)
  have u: "length (filter (\<lambda>t. stage t \<noteq> Settled) (setStage i Handled (tasks s))) =
      length (filter (\<lambda>t. stage t \<noteq> Settled) (tasks s))"
    using unsettled_keep [OF d Handle(2,3)] Handle(4) by simp
  have m: "\<forall>u \<in> set (setStage i Handled (tasks s)).
      index u < currentIndex s \<and> fate u = started s ! index u"
    using assms(1) setStage_member [of _ i Handled "tasks s"]
    by (fastforce simp: structured_def)
  show ?thesis
    using assms(1) u m unfolding Handle(5) structured_def
    by (simp split: phase.splits)
next
  case (Finish i t)
  from assms(1) have d: "distinct (map index (tasks s))" by (simp add: structured_def)
  have u: "Suc (length (filter (\<lambda>t. stage t \<noteq> Settled) (setStage i Settled (tasks s)))) =
      length (filter (\<lambda>t. stage t \<noteq> Settled) (tasks s))"
    using unsettled_drop [OF d Finish(2,3)] Finish(4) by simp
  have m: "\<forall>u \<in> set (setStage i Settled (tasks s)).
      index u < currentIndex s \<and> fate u = started s ! index u"
    using assms(1) setStage_member [of _ i Settled "tasks s"]
    by (fastforce simp: structured_def)
  show ?thesis
    using assms(1) u m unfolding Finish(5) structured_def
    by (simp split: phase.splits)
next
  case (Dequeue i t)
  from assms(1) have d: "distinct (map index (tasks s))" by (simp add: structured_def)
  have u: "length (filter (\<lambda>t. stage t \<noteq> Settled) (filter (\<lambda>t. index t \<noteq> i) (tasks s))) =
      length (filter (\<lambda>t. stage t \<noteq> Settled) (tasks s))"
    using unsettled_dequeue [OF d Dequeue(2,3,4)] .
  from assms(1) have "length (tasks s) \<le> window c" by (simp add: structured_def)
  then have l: "length (filter (\<lambda>t. index t \<noteq> i) (tasks s)) \<le> window c"
    using le_trans [OF length_filter_le] by blast
  have d': "distinct (map index (filter (\<lambda>t. index t \<noteq> i) (tasks s)))"
    using d by (simp add: distinct_map_filter)
  show ?thesis
    using assms(1) u l d' unfolding Dequeue(5) structured_def
    by (auto split: phase.splits)
next
  case (Res snap)
  then show ?thesis using assms(1) by (simp add: structured_def)
next
  case (Next snap i)
  have room: "length (tasks s) < window c"
    using raced_room [OF assms(1) Next(2,3,4)] .
  let ?s2 = "snd (canceled c (snd (nextItem c s)))"
  show ?thesis
  proof (cases "stopping c s")
    case True
    with Next(5) assms(1) show ?thesis
      by (simp add: next'_stop structured_def)
  next
    case False
    then show ?thesis
    proof (cases rule: next'_go)
      case (throw v e s3)
      with Next(5) assms(1) put_Inl_fields [OF throw(2)] show ?thesis
        by (simp add: structured_def)
    next
      case (admit v s3)
      obtain f where f: "tasks s3 = tasks s @ [\<lparr>index = currentIndex s, fate = f, stage = Running\<rparr>]"
        "started s3 = started s @ [f]"
        using put_Inr_fields(1) [OF admit(2)] by auto
      note rest = put_Inr_fields(2-) [OF admit(2)]
      have fresh: "currentIndex s \<notin> index ` set (tasks s)"
        using assms(1) by (auto simp: structured_def)
      have s': "s' = s3\<lparr>phase := Racing (map index (tasks s3))\<rparr>"
        using Next(5) admit(3) by simp
      from assms(1) have old: "distinct (map index (tasks s))"
        "\<forall>t \<in> set (tasks s). index t < currentIndex s \<and> fate t = started s ! index t"
        "length (started s) = currentIndex s"
        "readyCount s + length (filter (\<lambda>t. stage t \<noteq> Settled) (tasks s)) = currentIndex s"
        by (simp_all add: structured_def)
      show ?thesis
        unfolding s' structured_def
        using old f rest(1,2) room fresh
        by (auto simp: nth_append less_Suc_eq)
    qed
  qed
qed

lemma reachable_structured: "reachable c s \<Longrightarrow> structured c s"
  by (induction rule: reachable.induct) (auto intro: structured_start structured_fire)

section \<open>Runs\<close>

lemma exec_reachable: "reachable c s \<Longrightarrow> exec c evs s = Some s' \<Longrightarrow> reachable c s'"
proof (induction evs arbitrary: s)
  case Nil
  then show ?case by simp
next
  case (Cons ev evs)
  then show ?case
    by (auto split: option.splits intro: reach_fire)
qed

lemma run_reachable: "exec c evs (start c) = Some s \<Longrightarrow> reachable c s"
  using exec_reachable [OF reach_start] .

lemma run_reachable_the:
  "exec c evs (start c) \<noteq> None \<Longrightarrow> reachable c (the (exec c evs (start c)))"
  using run_reachable [of c evs] by auto

lemma start_index_le: "currentIndex (start c) \<le> window c"
proof -
  consider "start c = (init c)\<lparr>promise := Rejected RangeError\<rparr>"
    | e s where "admitting c s" "start c = s\<lparr>promise := Rejected (Failure e)\<rparr>"
    | s where "admitting c s" "start c = s\<lparr>phase := Racing (map index (tasks s))\<rparr>"
    using start_shape [of c] by blast
  then show ?thesis
  proof cases
    case 1
    then show ?thesis by (simp add: init_def Let_def)
  next
    case 2
    then show ?thesis by (simp add: admitting_def)
  next
    case 3
    then show ?thesis by (simp add: admitting_def)
  qed
qed

lemma admits_one:
  assumes "structured c s" and "fire c ev s = Some s'" and "currentIndex s' \<noteq> currentIndex s"
  shows "ev = Wake \<and> length (tasks s) < window c \<and> currentIndex s' = Suc (currentIndex s) \<and>
         length (tasks s') = Suc (length (tasks s))"
  using assms(2)
proof (cases rule: fire_cases)
  case (Next snap i)
  have room: "length (tasks s) < window c"
    using raced_room [OF assms(1) Next(2,3,4)] .
  show ?thesis
  proof (cases "stopping c s")
    case True
    with Next(5) assms(3) show ?thesis by (simp add: next'_stop)
  next
    case False
    then show ?thesis
    proof (cases rule: next'_go)
      case (throw v e s3)
      with Next(5) assms(3) put_Inl_fields [OF throw(2)] show ?thesis by simp
    next
      case (admit v s3)
      with Next(1,5) room put_Inr_fields(1,2) [OF admit(2)] show ?thesis by auto
    qed
  qed
qed (use assms(3) in simp_all)

lemma start_cases [case_names range throw filled]:
  obtains "badLength c" "start c = (init c)\<lparr>promise := Rejected RangeError\<rparr>"
    | e s where "\<not> badLength c"
      "admitting c s" "currentIndex s < window c" "currentIndex s < length (source c)"
      "cb c (source c ! currentIndex s) (currentIndex s) = Throws e"
      "start c = s\<lparr>promise := Rejected (Failure e)\<rparr>"
    | s where "\<not> badLength c"
      "admitting c s" "currentIndex s = min (window c) (length (source c))"
      "backend c = Iterated \<longrightarrow> iter s = drop (Suc (window c)) (source c)"
      "start c = s\<lparr>phase := Racing (map index (tasks s))\<rparr>"
  using start_shape [of c] by blast

lemma admitting_tasks:
  assumes "admitting c s"
  shows "map index (tasks s) = [0..<currentIndex s]" and "\<forall>t \<in> set (tasks s). stage t = Running"
    and "polls s = []" and "readyCount s = 0" and "promise s = Pending" and "phase s = Stopped"
  using assms by (simp_all add: admitting_def)

lemma init_fields [simp]:
  "tasks (init c) = []" "currentIndex (init c) = 0" "polls (init c) = []"
  "readyCount (init c) = 0" "promise (init c) = Pending" "phase (init c) = Stopped"
  by (simp_all add: init_def Let_def)

lemma no_tasks_no_event:
  assumes "tasks s = []" and "phase s = Racing [] \<or> phase s = Stopped"
  shows "fire c ev s = None"
  using assms by (cases ev) auto

lemma start_empty:
  assumes "source c = []"
  shows "tasks (start c) = [] \<and> currentIndex (start c) = 0 \<and>
         (phase (start c) = Racing [] \<or> phase (start c) = Stopped) \<and>
         promise (start c) =
           (if badLength c then Rejected RangeError else Pending)"
proof -
  show ?thesis
  proof (cases c rule: start_cases)
    case range
    then show ?thesis by simp
  next
    case (throw e s)
    with assms show ?thesis by simp
  next
    case (filled s)
    with assms have "currentIndex s = 0" by simp
    with admitting_tasks [OF filled(2)] filled(1,5) show ?thesis by simp
  qed
qed

lemma polls_next': "polls (next' c s) = polls (snd (canceled c s))"
proof (cases "stopping c s")
  case True
  then show ?thesis by (simp add: next'_stop canceled_def split: option.splits)
next
  case False
  then show ?thesis
  proof (cases rule: next'_go)
    case (throw v e s3)
    with put_Inl_fields [OF throw(2)] show ?thesis
      by (simp add: canceled_def split: option.splits)
  next
    case (admit v s3)
    with put_Inr_fields(2-) [OF admit(2)] show ?thesis
      by (simp add: canceled_def split: option.splits)
  qed
qed

lemma raced_settled:
  assumes "structured c s" and "phase s = Racing snap" and "i \<in> set snap"
    and "i \<notin> set (map index (tasks s))"
  shows "1 \<le> readyCount s"
proof -
  from assms(1,2) have sub: "set (map index (tasks s)) \<subseteq> set snap" and d: "distinct snap"
    and lt: "\<forall>i \<in> set snap. i < currentIndex s" and dt: "distinct (map index (tasks s))"
    and rc: "readyCount s + length (filter (\<lambda>t. stage t \<noteq> Settled) (tasks s)) = currentIndex s"
    by (simp_all add: structured_def)
  from sub assms(3,4) have "set (map index (tasks s)) \<subset> set snap" by blast
  then have "card (set (map index (tasks s))) < card (set snap)"
    by (simp add: psubset_card_mono)
  with card_index_set [OF dt] distinct_card [OF d] have 1: "length (tasks s) < length snap"
    by simp
  from lt have "set snap \<subseteq> {..<currentIndex s}" by auto
  then have "card (set snap) \<le> card {..<currentIndex s}"
    by (intro card_mono) auto
  with distinct_card [OF d] have 2: "length snap \<le> currentIndex s" by simp
  have "length (filter (\<lambda>t. stage t \<noteq> Settled) (tasks s)) \<le> length (tasks s)" by simp
  with 1 2 rc show ?thesis by linarith
qed

lemma polls_positive: "reachable c s \<Longrightarrow> \<forall>n \<in> set (polls s). 1 \<le> n"
proof (induction rule: reachable.induct)
  case reach_start
  show ?case
    by (cases c rule: start_cases) (simp_all add: admitting_def)
next
  case (reach_fire s ev s')
  from reach_fire(2) show ?case
  proof (cases rule: fire_cases)
    case (Next snap i)
    have "1 \<le> readyCount s"
      using raced_settled [OF reachable_structured [OF reach_fire(1)] Next(2,3,4)] .
    with reach_fire(3) Next(5) show ?thesis
      by (auto simp: polls_next' canceled_def split: option.splits)
  qed (use reach_fire(3) in simp_all)
qed

section \<open>Which item a task is for\<close>

lemma isRacing_simps [simp]:
  "isRacing (Racing snap)" "\<not> isRacing (Draining snap)" "\<not> isRacing Stopped"
  by (simp_all add: isRacing_def)

lemma tracked_cong:
  "tracked c s \<Longrightarrow> currentIndex s' = currentIndex s \<Longrightarrow> started s' = started s \<Longrightarrow>
   phase s' = phase s \<Longrightarrow> iter s' = iter s \<Longrightarrow> tracked c s'"
  by (simp add: tracked_def)

lemma tracked_stop:
  "tracked c s \<Longrightarrow> currentIndex s' = currentIndex s \<Longrightarrow> started s' = started s \<Longrightarrow>
   \<not> isRacing (phase s') \<Longrightarrow> tracked c s'"
  by (simp add: tracked_def)

lemma admitting_tracked:
  assumes "admitting c s" and "\<not> isRacing p"
  shows "tracked c (s\<lparr>promise := q, phase := p\<rparr>)"
  using assms by (auto simp: tracked_def admitting_def srcpos_def)

lemma tracked_start: "tracked c (start c)"
proof (cases c rule: start_cases)
  case range
  then show ?thesis by (simp add: tracked_def)
next
  case (throw e s)
  then show ?thesis by (auto simp: tracked_def admitting_def srcpos_def)
next
  case (filled s)
  from filled(2) have cb: "\<forall>i < currentIndex s. cb c (source c ! i) i = Returns (started s ! i)"
    and le: "currentIndex s \<le> window c" "currentIndex s \<le> length (source c)"
    by (simp_all add: admitting_def)
  have 1: "\<forall>i < currentIndex s. srcpos c i < length (source c) \<and>
        cb c (source c ! srcpos c i) i = Returns (started s ! i)"
    using cb le by (auto simp: srcpos_def)
  have 2: "iter s = drop (srcpos c (currentIndex s)) (source c)"
    if "backend c = Iterated"
    using that filled(3,4) by (auto simp: srcpos_def min_def)
  have 3: "length (source c) \<le> currentIndex s" if "currentIndex s < window c"
    using that filled(3) by (simp add: min_def split: if_splits)
  show ?thesis
    unfolding filled(5) tracked_def using 1 2 3 by simp
qed

lemma nextItem_Some:
  assumes "tracked c s" and "isRacing (phase s)" and "fst (nextItem c s) = Some v"
  shows "srcpos c (currentIndex s) < length (source c) \<and>
         v = source c ! srcpos c (currentIndex s) \<and>
         iter (snd (nextItem c s)) =
           (if backend c = Iterated then drop (srcpos c (Suc (currentIndex s))) (source c) else iter s) \<and>
         (backend c = Iterated \<longrightarrow> window c \<le> currentIndex s)"
proof (cases "backend c")
  case Indexed
  with assms(3) show ?thesis
    by (auto simp: nextItem_def srcpos_def split: if_splits)
next
  case Iterated
  with assms(1,2) have it: "iter s = drop (srcpos c (currentIndex s)) (source c)"
    and w: "currentIndex s < window c \<longrightarrow> length (source c) \<le> currentIndex s"
    by (simp_all add: tracked_def)
  from assms(3) Iterated obtain rest where r: "iter s = v # rest"
    by (auto simp: nextItem_def pull_def split: list.splits)
  with it have lt: "srcpos c (currentIndex s) < length (source c)"
    by (metis drop_eq_Nil2 list.distinct(1) not_le)
  from r it lt have v: "v = source c ! srcpos c (currentIndex s)"
    and rest: "rest = drop (Suc (srcpos c (currentIndex s))) (source c)"
    by (metis Cons_nth_drop_Suc list.inject)+
  have ge: "window c \<le> currentIndex s"
  proof (rule ccontr)
    assume "\<not> window c \<le> currentIndex s"
    with w lt show False by (simp add: srcpos_def)
  qed
  then have "srcpos c (Suc (currentIndex s)) = Suc (srcpos c (currentIndex s))"
    using Iterated by (simp add: srcpos_def)
  with lt v rest r ge Iterated show ?thesis
    by (simp add: nextItem_def pull_def)
qed

lemma tracked_fire:
  assumes "tracked c s" and "fire c ev s = Some s'" and "structured c s"
  shows "tracked c s'"
  using assms(2)
proof (cases rule: fire_cases)
  case (Next snap i)
  let ?s2 = "snd (canceled c (snd (nextItem c s)))"
  show ?thesis
  proof (cases "stopping c s")
    case True
    with Next(5) show ?thesis
      by (auto simp: next'_stop intro!: tracked_stop [OF assms(1)])
  next
    case False
    then show ?thesis
    proof (cases rule: next'_go)
      case (throw v e s3)
      with Next(5) put_Inl_fields [OF throw(2)] show ?thesis
        by (auto intro!: tracked_stop [OF assms(1)])
    next
      case (admit v s3)
      obtain f where f: "cb c v (currentIndex s) = Returns f" "started s3 = started s @ [f]"
        using put_Inr_fields(1) [OF admit(2)] by auto
      note rest = put_Inr_fields(2-) [OF admit(2)]
      from Next(2) have "isRacing (phase s)" by simp
      note ni = nextItem_Some [OF assms(1) this admit(1)]
      from assms(1) have old: "\<forall>i < currentIndex s. srcpos c i < length (source c) \<and>
        cb c (source c ! srcpos c i) i = Returns (started s ! i)"
        by (simp add: tracked_def)
      have len: "length (started s) = currentIndex s"
        using assms(3) by (simp add: structured_def)
      have s': "s' = s3\<lparr>phase := Racing (map index (tasks s3))\<rparr>"
        using Next(5) admit(3) by simp
      have 1: "srcpos c i < length (source c) \<and>
          cb c (source c ! srcpos c i) i = Returns ((started s @ [f]) ! i)"
        if "i < Suc (currentIndex s)" for i
      proof (cases "i = currentIndex s")
        case True
        with ni f(1) len show ?thesis by (simp add: nth_append)
      next
        case False
        with that have "i < currentIndex s" by simp
        with old len show ?thesis by (simp add: nth_append)
      qed
      have 2: "iter s3 = drop (srcpos c (Suc (currentIndex s))) (source c)"
        "\<not> Suc (currentIndex s) < window c"
        if "backend c = Iterated"
        using that ni rest(3) by simp_all
      have cur: "currentIndex s' = Suc (currentIndex s)" and st: "started s' = started s @ [f]"
        and it: "iter s' = iter s3" and ph: "isRacing (phase s')"
        using s' f(2) rest(1) by simp_all
      show ?thesis
        unfolding tracked_def cur st it
      proof (intro conjI allI impI)
        fix i assume "i < Suc (currentIndex s)"
        from 1 [OF this]
        show "srcpos c i < length (source c)"
          and "cb c (source c ! srcpos c i) i = Returns ((started s @ [f]) ! i)"
          by blast+
      next
        assume "backend c = Iterated \<and> isRacing (phase s')"
        then have b: "backend c = Iterated" ..
        from 2(1) [OF b] show "iter s3 = drop (srcpos c (Suc (currentIndex s))) (source c)" .
      next
        assume "backend c = Iterated \<and> isRacing (phase s')"
        then have b: "backend c = Iterated" ..
        assume "Suc (currentIndex s) < window c"
        with 2(2) [OF b] show "length (source c) \<le> Suc (currentIndex s)" by simp
      qed
    qed
  qed
qed (simp_all add: tracked_cong [OF assms(1)] tracked_stop [OF assms(1)])

lemma reachable_tracked: "reachable c s \<Longrightarrow> tracked c s"
proof (induction rule: reachable.induct)
  case reach_start
  show ?case by (rule tracked_start)
next
  case (reach_fire s ev s')
  from tracked_fire [OF reach_fire(3) reach_fire(2) reachable_structured [OF reach_fire(1)]]
  show ?case .
qed

section \<open>The outcomes known so far\<close>

lemma running_setStage:
  "st \<noteq> Running \<Longrightarrow>
   set (map index (filter (\<lambda>t. stage t = Running) (setStage i st ts))) =
   set (map index (filter (\<lambda>t. stage t = Running) ts)) - {i}"
  by (induction ts) (auto simp: setStage_def)

lemma not_running:
  "distinct (map index ts) \<Longrightarrow> t \<in> set ts \<Longrightarrow> stage t \<noteq> Running \<Longrightarrow>
   index t \<notin> set (map index (filter (\<lambda>t. stage t = Running) ts))"
  by (induction ts) (auto simp: image_iff)

lemma running_dequeue:
  "set (map index (filter (\<lambda>t. stage t = Running) (filter (\<lambda>t. index t \<noteq> i) ts))) =
   set (map index (filter (\<lambda>t. stage t = Running) ts)) - {i}"
  by (induction ts) auto

lemma cell_cong:
  "currentIndex s' = currentIndex s \<Longrightarrow> started s' = started s \<Longrightarrow>
   set (map index (filter (\<lambda>t. stage t = Running) (tasks s'))) =
   set (map index (filter (\<lambda>t. stage t = Running) (tasks s))) \<Longrightarrow> cell s' = cell s"
  by (rule ext) (simp add: cell_def handled_def)

lemma cell_running:
  "t \<in> set (tasks s) \<Longrightarrow> stage t = Running \<Longrightarrow> cell s (index t) = None"
  by (auto simp: cell_def handled_def)

lemma cell_beyond: "currentIndex s \<le> i \<Longrightarrow> cell s i = None"
  by (simp add: cell_def handled_def)

lemma cell_Handle:
  assumes "structured c s" and "t \<in> set (tasks s)" and "stage t = Running"
  shows "cell (handlers c (index t) f (s\<lparr>tasks := setStage (index t) Handled (tasks s)\<rparr>)) =
         (cell s)(index t := Some (fate t))"
proof
  fix j
  from assms(1,2) have lt: "index t < currentIndex s" and f: "fate t = started s ! index t"
    by (simp_all add: structured_def)
  have r: "set (map index (filter (\<lambda>t. stage t = Running) (setStage (index t) Handled (tasks s)))) =
     set (map index (filter (\<lambda>t. stage t = Running) (tasks s))) - {index t}"
    by (rule running_setStage) simp
  show "cell (handlers c (index t) f (s\<lparr>tasks := setStage (index t) Handled (tasks s)\<rparr>)) j =
         ((cell s)(index t := Some (fate t))) j"
    using lt f r by (simp add: cell_def handled_def)
qed

lemma cell_Finish:
  assumes "structured c s" and "t \<in> set (tasks s)" and "stage t = Handled"
  shows "cell (finally' c (s\<lparr>tasks := setStage (index t) Settled (tasks s)\<rparr>)) = cell s"
proof (rule cell_cong)
  from assms(1) have d: "distinct (map index (tasks s))" by (simp add: structured_def)
  have "index t \<notin> set (map index (filter (\<lambda>t. stage t = Running) (tasks s)))"
    using not_running [OF d assms(2)] assms(3) by simp
  then show "set (map index (filter (\<lambda>t. stage t = Running)
        (tasks (finally' c (s\<lparr>tasks := setStage (index t) Settled (tasks s)\<rparr>))))) =
      set (map index (filter (\<lambda>t. stage t = Running) (tasks s)))"
    using running_setStage [of Settled "index t" "tasks s"] by simp
qed simp_all

lemma cell_Dequeue:
  assumes "structured c s" and "t \<in> set (tasks s)" and "stage t = Settled"
  shows "cell (dequeue (index t) s) = cell s"
proof (rule cell_cong)
  from assms(1) have d: "distinct (map index (tasks s))" by (simp add: structured_def)
  have "index t \<notin> set (map index (filter (\<lambda>t. stage t = Running) (tasks s)))"
    using not_running [OF d assms(2)] assms(3) by simp
  then show "set (map index (filter (\<lambda>t. stage t = Running) (tasks (dequeue (index t) s)))) =
      set (map index (filter (\<lambda>t. stage t = Running) (tasks s)))"
    using running_dequeue [of "index t" "tasks s"] by simp
qed simp_all

lemma cell_put:
  assumes "structured c s" and "put c v s2 = Inr s3" and "tasks s2 = tasks s"
    and "currentIndex s2 = currentIndex s" and "started s2 = started s"
  shows "cell (s3\<lparr>phase := p\<rparr>) = cell s"
proof
  fix j
  obtain f where f: "tasks s3 = tasks s2 @ [\<lparr>index = currentIndex s2, fate = f, stage = Running\<rparr>]"
    "started s3 = started s2 @ [f]"
    using put_Inr_fields(1) [OF assms(2)] by auto
  note cur = put_Inr_fields(2) [OF assms(2)]
  from assms(1) have len: "length (started s) = currentIndex s"
    and lt: "\<forall>t \<in> set (tasks s). index t < currentIndex s"
    by (simp_all add: structured_def)
  show "cell (s3\<lparr>phase := p\<rparr>) j = cell s j"
  proof (cases "j < currentIndex s")
    case True
    with f cur len assms(3-5) show ?thesis
      by (auto simp: cell_def handled_def nth_append)
  next
    case False
    with f cur assms(3-5) show ?thesis
      by (auto simp: cell_def handled_def less_Suc_eq)
  qed
qed

lemma cell_next':
  assumes "structured c s"
  shows "cell (next' c s) = cell s"
proof (cases "stopping c s")
  case True
  then show ?thesis
    by (simp add: next'_stop) (rule cell_cong, simp_all)
next
  case False
  then show ?thesis
  proof (cases rule: next'_go)
    case (throw v e s3)
    have "cell (s3\<lparr>phase := Stopped\<rparr>) = cell s"
      using put_Inl_fields [OF throw(2)] by (intro cell_cong) simp_all
    with throw(3) show ?thesis by simp
  next
    case (admit v s3)
    with cell_put [OF assms admit(2)] show ?thesis by simp
  qed
qed

lemma cell_res [simp]: "cell (res s) = cell s"
  by (rule cell_cong) simp_all

section \<open>The output of \<open>runDependently\<close>, cell by cell\<close>

lemma setLength_grow:
  "length (setLength xs (max (length xs) m)) = max (length xs) m"
  "i < max (length xs) m \<Longrightarrow>
   setLength xs (max (length xs) m) ! i = (if i < length xs then xs ! i else None)"
  by (auto simp: setLength_def nth_append)

lemma assign_within: "i < length xs \<Longrightarrow> assign xs i v = xs[i := Some v]"
  by (simp add: assign_def setLength_def max_def)

lemma sized_cong: "sized c s n \<Longrightarrow> currentIndex s' = currentIndex s \<Longrightarrow> sized c s' n"
  by (simp add: sized_def split: backend.splits)

lemma cell_admitting:
  assumes "admitting c s"
  shows "cell s i = None"
proof (cases "i < currentIndex s")
  case True
  from assms have m: "map index (tasks s) = [0..<currentIndex s]"
    and r: "\<forall>t \<in> set (tasks s). stage t = Running"
    by (simp_all add: admitting_def)
  from r have "filter (\<lambda>t. stage t = Running) (tasks s) = tasks s"
    by (simp add: filter_id_conv)
  with m True show ?thesis by (simp add: cell_def handled_def)
next
  case False
  then show ?thesis by (simp add: cell_beyond)
qed

lemma sized_admitting:
  assumes "admitting c s"
  shows "sized c s (case backend c of Indexed \<Rightarrow> length (source c) | Iterated \<Rightarrow> window c)"
  using assms by (auto simp: sized_def admitting_def split: backend.splits)

lemma init_size:
  assumes "\<not> badLength c"
  shows "(case backend c of
            Indexed \<Rightarrow> length (source c)
          | Iterated \<Rightarrow> (case arrayLength (r_threads (opts c)) of Some n \<Rightarrow> n | None \<Rightarrow> 0)) =
         (case backend c of Indexed \<Rightarrow> length (source c) | Iterated \<Rightarrow> window c)"
proof (cases "backend c")
  case Iterated
  from good_length [OF Iterated assms] Iterated show ?thesis by force
qed simp

lemma init_arrays:
  assumes "\<not> badLength c"
  shows "policy c = Dependently \<Longrightarrow>
   out (init c) = replicate (case backend c of Indexed \<Rightarrow> length (source c) | Iterated \<Rightarrow> window c) None"
  and "policy c = Independently \<Longrightarrow>
   results (init c) = replicate (case backend c of Indexed \<Rightarrow> length (source c) | Iterated \<Rightarrow> window c) None"
  and "policy c = Independently \<Longrightarrow>
   values' (init c) = replicate (case backend c of Indexed \<Rightarrow> length (source c) | Iterated \<Rightarrow> window c) None"
  using init_size [OF assms] by (simp_all add: init_def Let_def)

lemma init_bad:
  assumes "badLength c"
  shows "out (init c) = []" and "results (init c) = []" and "values' (init c) = []"
    and "backend c = Iterated" and "errors (init c) = Map.empty" and "ok (init c)"
  using assms by (simp_all add: init_def Let_def badLength_def split: policy.splits)

lemma cell_init [simp]: "cell (init c) i = None"
  by (simp add: cell_def handled_def)

lemma recordedOut_admitting:
  assumes "admitting c s" and "policy c = Dependently"
    and "currentIndex s' = currentIndex s" and "out s' = out s" and "cell s' = cell s"
    and "\<not> badLength c"
  shows "recordedOut c s'"
proof -
  from assms(1) have o: "out s = out (init c)" by (simp add: admitting_def)
  show ?thesis
    unfolding recordedOut_def
    using sized_cong [OF sized_admitting [OF assms(1)] assms(3)] cell_admitting [OF assms(1)]
      init_arrays(1) [OF assms(6,2)] o assms(4,5)
    by simp
qed

lemma recordedOut_start:
  assumes "policy c = Dependently"
  shows "recordedOut c (start c)"
proof (cases c rule: start_cases)
  case range
  with assms show ?thesis
    by (simp add: recordedOut_def sized_def init_bad cell_beyond)
next
  case (throw e s)
  show ?thesis
    unfolding throw(6)
    by (rule recordedOut_admitting [OF throw(2) assms _ _ _ throw(1)])
       (simp_all, rule cell_cong, simp_all)
next
  case (filled s)
  show ?thesis
    unfolding filled(5)
    by (rule recordedOut_admitting [OF filled(2) assms _ _ _ filled(1)])
       (simp_all, rule cell_cong, simp_all)
qed

lemma handlers_Dependently:
  assumes "policy c = Dependently"
  shows "out (handlers c i f s) = (case f of Fulfils r \<Rightarrow> assign (out s) i r | Rejects e \<Rightarrow> out s)"
    and "results (handlers c i f s) = results s" and "values' (handlers c i f s) = values' s"
    and "errors (handlers c i f s) = errors s" and "ok (handlers c i f s) = ok s"
    and "throwed (handlers c i f s) = (case f of Fulfils r \<Rightarrow> throwed s | Rejects e \<Rightarrow> True)"
    and "rejections (handlers c i f s) =
      (case f of Fulfils r \<Rightarrow> rejections s | Rejects e \<Rightarrow> rejections s @ [e])"
    and "promise (handlers c i f s) =
      (case f of Fulfils r \<Rightarrow> promise s
       | Rejects e \<Rightarrow> if promise s = Pending then Rejected (Failure e) else promise s)"
  using assms by (simp_all add: handlers_def reject_def split: outcome.splits)

lemma handlers_Independently:
  assumes "policy c = Independently"
  shows "out (handlers c i f s) = out s"
    and "results (handlers c i f s) =
      (case f of Fulfils r \<Rightarrow> assign (results s) i (Ok r) | Rejects e \<Rightarrow> assign (results s) i (Err e))"
    and "values' (handlers c i f s) =
      (case f of Fulfils r \<Rightarrow> assign (values' s) i r | Rejects e \<Rightarrow> values' s)"
    and "errors (handlers c i f s) =
      (case f of Fulfils r \<Rightarrow> errors s | Rejects e \<Rightarrow> (errors s)(i \<mapsto> e))"
    and "ok (handlers c i f s) = (case f of Fulfils r \<Rightarrow> ok s | Rejects e \<Rightarrow> False)"
    and "throwed (handlers c i f s) = throwed s"
    and "rejections (handlers c i f s) = rejections s"
    and "promise (handlers c i f s) = promise s"
  using assms by (simp_all add: handlers_def split: outcome.splits)

lemma recordedOut_same:
  assumes "recordedOut c s" and "currentIndex s' = currentIndex s" and "out s' = out s"
    and "cell s' = cell s"
  shows "recordedOut c s'"
  using assms sized_cong [of c s "length (out s)" s']
  by (simp add: recordedOut_def)

lemma recordedOut_Handle:
  assumes "recordedOut c s" and "structured c s" and "policy c = Dependently"
    and "t \<in> set (tasks s)" and "stage t = Running"
  shows "recordedOut c (handlers c (index t) (fate t)
           (s\<lparr>tasks := setStage (index t) Handled (tasks s)\<rparr>))"
proof -
  let ?s0 = "s\<lparr>tasks := setStage (index t) Handled (tasks s)\<rparr>"
  let ?s' = "handlers c (index t) (fate t) ?s0"
  from assms(1) have sz: "sized c s (length (out s))"
    and cells: "\<forall>i < length (out s). out s ! i = valueOf (cell s i)"
    by (simp_all add: recordedOut_def)
  from assms(2,4) have "index t < currentIndex s" by (simp add: structured_def)
  with sz have lt: "index t < length (out s)" by (simp add: sized_def)
  have c': "cell ?s' = (cell s)(index t := Some (fate t))"
    by (rule cell_Handle [OF assms(2,4,5)])
  have none: "cell s (index t) = None"
    by (rule cell_running [OF assms(4,5)])
  have o: "out ?s' = (case fate t of Fulfils r \<Rightarrow> (out s)[index t := Some r] | Rejects e \<Rightarrow> out s)"
    using handlers_Dependently(1) [OF assms(3)] lt
    by (simp add: assign_within split: outcome.splits)
  have len: "length (out ?s') = length (out s)"
    using o by (simp split: outcome.splits)
  have "out ?s' ! i = valueOf (cell ?s' i)" if "i < length (out s)" for i
  proof (cases "i = index t")
    case True
    with o lt cells none show ?thesis
      unfolding c' by (cases "fate t") auto
  next
    case False
    with o that cells show ?thesis
      unfolding c' by (cases "fate t") auto
  qed
  moreover have "sized c ?s' (length (out s))"
    by (rule sized_cong [OF sz]) simp
  ultimately show ?thesis
    unfolding recordedOut_def len by simp
qed

lemma recordedOut_put:
  assumes "recordedOut c s" and "structured c s" and "policy c = Dependently"
    and "put c v s2 = Inr s3 \<or> put c v s2 = Inl (e, s3)"
    and "out s2 = out s" and "currentIndex s2 = currentIndex s"
    and "currentIndex s3 = Suc (currentIndex s) \<or>
         (currentIndex s3 = currentIndex s \<and> cb c v (currentIndex s) = Throws e)"
    and "currentIndex s3 \<le> length (source c)"
    and "cell (s3\<lparr>phase := p\<rparr>) = cell s"
  shows "recordedOut c (s3\<lparr>phase := p\<rparr>)"
proof -
  from assms(1) have sz: "sized c s (length (out s))"
    and cells: "\<forall>i < length (out s). out s ! i = valueOf (cell s i)"
    by (simp_all add: recordedOut_def)
  have beyond: "cell s i = None" if "length (out s) \<le> i" for i
    using that sz by (simp add: sized_def cell_beyond)
  show ?thesis
  proof (cases "backend c")
    case Indexed
    then have o: "out s3 = out s"
      using put_arrays(1) [OF assms(4)] assms(5) by simp
    have "sized c (s3\<lparr>phase := p\<rparr>) (length (out s))"
      using sz assms(8) Indexed by (simp add: sized_def)
    with o cells assms(9) show ?thesis
      by (simp add: recordedOut_def)
  next
    case Iterated
    then have o: "out s3 = setLength (out s) (max (length (out s)) (Suc (currentIndex s)))"
      using put_arrays(1) [OF assms(4)] assms(3,5,6) by simp
    have len: "length (out s3) = max (length (out s)) (Suc (currentIndex s))"
      unfolding o by (rule setLength_grow(1))
    have nth: "out s3 ! i = valueOf (cell s i)" if "i < length (out s3)" for i
    proof (cases "i < length (out s)")
      case True
      with that cells show ?thesis
        unfolding o using setLength_grow(2) [of i "out s" "Suc (currentIndex s)"] len o by simp
    next
      case False
      with that beyond [of i] show ?thesis
        unfolding o using setLength_grow(2) [of i "out s" "Suc (currentIndex s)"] len o by simp
    qed
    have "sized c (s3\<lparr>phase := p\<rparr>) (length (out s3))"
      using sz assms(7) Iterated len
      by (auto simp: sized_def promises_def)
    with nth assms(9) show ?thesis
      by (simp add: recordedOut_def)
  qed
qed

lemma srcpos_ge: "i \<le> srcpos c i"
  by (simp add: srcpos_def)

lemma tracked_le:
  assumes "tracked c s"
  shows "currentIndex s \<le> length (source c)"
proof (cases "currentIndex s")
  case 0
  then show ?thesis by simp
next
  case (Suc k)
  with assms have "srcpos c k < length (source c)" by (simp add: tracked_def)
  with srcpos_ge [of k c] Suc show ?thesis by simp
qed

lemma recordedOut_fire:
  assumes "recordedOut c s" and "fire c ev s = Some s'" and "structured c s" and "tracked c s"
    and "policy c = Dependently"
  shows "recordedOut c s'"
  using assms(2)
proof (cases rule: fire_cases)
  case (Handle i t)
  with recordedOut_Handle [OF assms(1,3,5) Handle(2,4)] show ?thesis by simp
next
  case (Finish i t)
  show ?thesis
    unfolding Finish(5)
    using cell_Finish [OF assms(3) Finish(2,4)] Finish(3)
    by (intro recordedOut_same [OF assms(1)]) simp_all
next
  case (Dequeue i t)
  show ?thesis
    unfolding Dequeue(5)
    using cell_Dequeue [OF assms(3) Dequeue(2,4)] Dequeue(3)
    by (intro recordedOut_same [OF assms(1)]) simp_all
next
  case (Res snap)
  show ?thesis
    unfolding Res(4) by (intro recordedOut_same [OF assms(1)]) simp_all
next
  case (Next snap i)
  have tr': "tracked c s'" by (rule tracked_fire [OF assms(4,2,3)])
  show ?thesis
  proof (cases "stopping c s")
    case True
    have "cell (next' c s) = cell s" by (rule cell_next' [OF assms(3)])
    then show ?thesis
      unfolding Next(5) using True
      by (intro recordedOut_same [OF assms(1)]) (simp_all add: next'_stop)
  next
    case False
    then show ?thesis
    proof (cases rule: next'_go)
      case (throw v e s3)
      have c: "cell (s3\<lparr>phase := Stopped\<rparr>) = cell s"
        using cell_next' [OF assms(3)] throw(3) by simp
      note fl = put_Inl_fields [OF throw(2)]
      show ?thesis
        unfolding Next(5) throw(3)
        using throw(2) fl(1,4) tracked_le [OF assms(4)] c
        by (intro recordedOut_put [OF assms(1,3,5), of v "snd (canceled c (snd (nextItem c s)))" s3 e]) simp_all
    next
      case (admit v s3)
      have c: "cell (s3\<lparr>phase := Racing (map index (tasks s3))\<rparr>) = cell s"
        using cell_next' [OF assms(3)] admit(3) by simp
      note fl = put_Inr_fields(2) [OF admit(2)]
      have "currentIndex s3 \<le> length (source c)"
        using tracked_le [OF tr'] Next(5) admit(3) by simp
      then show ?thesis
        unfolding Next(5) admit(3)
        using admit(2) fl c
        by (intro recordedOut_put [OF assms(1,3,5), of v "snd (canceled c (snd (nextItem c s)))" s3 undefined]) simp_all
    qed
  qed
qed

lemma reachable_recordedOut:
  assumes "policy c = Dependently"
  shows "reachable c s \<Longrightarrow> recordedOut c s"
proof (induction rule: reachable.induct)
  case reach_start
  show ?case by (rule recordedOut_start [OF assms])
next
  case (reach_fire s ev s')
  from recordedOut_fire [OF reach_fire(3) reach_fire(2) reachable_structured [OF reach_fire(1)]
      reachable_tracked [OF reach_fire(1)] assms]
  show ?case .
qed

section \<open>The bundle of \<open>runIndependently\<close>, cell by cell\<close>

lemma recordedBundle_same:
  assumes "recordedBundle c s" and "currentIndex s' = currentIndex s"
    and "results s' = results s" and "values' s' = values' s" and "errors s' = errors s"
    and "ok s' = ok s" and "cell s' = cell s"
  shows "recordedBundle c s'"
  using assms sized_cong [of c s "length (results s)" s']
  by (simp add: recordedBundle_def)

lemma recordedBundle_admitting:
  assumes "admitting c s" and "policy c = Independently"
    and "currentIndex s' = currentIndex s" and "results s' = results s"
    and "values' s' = values' s" and "errors s' = errors s" and "ok s' = ok s"
    and "cell s' = cell s" and "\<not> badLength c"
  shows "recordedBundle c s'"
proof -
  from assms(1) have o: "results s = results (init c)" "values' s = values' (init c)"
    "errors s = Map.empty" "ok s"
    by (simp_all add: admitting_def)
  show ?thesis
    unfolding recordedBundle_def
    using sized_cong [OF sized_admitting [OF assms(1)] assms(3)] cell_admitting [OF assms(1)]
      init_arrays(2,3) [OF assms(9,2)] o assms(4-8)
    by simp
qed

lemma recordedBundle_start:
  assumes "policy c = Independently"
  shows "recordedBundle c (start c)"
proof (cases c rule: start_cases)
  case range
  with assms show ?thesis
    by (simp add: recordedBundle_def sized_def init_bad cell_beyond)
next
  case (throw e s)
  show ?thesis
    unfolding throw(6)
    by (rule recordedBundle_admitting [OF throw(2) assms _ _ _ _ _ _ throw(1)])
       (simp_all, rule cell_cong, simp_all)
next
  case (filled s)
  show ?thesis
    unfolding filled(5)
    by (rule recordedBundle_admitting [OF filled(2) assms _ _ _ _ _ _ filled(1)])
       (simp_all, rule cell_cong, simp_all)
qed

lemma recordedBundle_Handle:
  assumes "recordedBundle c s" and "structured c s" and "policy c = Independently"
    and "t \<in> set (tasks s)" and "stage t = Running"
  shows "recordedBundle c (handlers c (index t) (fate t)
           (s\<lparr>tasks := setStage (index t) Handled (tasks s)\<rparr>))"
proof -
  let ?s0 = "s\<lparr>tasks := setStage (index t) Handled (tasks s)\<rparr>"
  let ?s' = "handlers c (index t) (fate t) ?s0"
  from assms(1) have sz: "sized c s (length (results s))"
    and lv: "length (values' s) = length (results s)"
    and cells: "\<forall>i < length (results s).
        results s ! i = resultOf (cell s i) \<and> values' s ! i = valueOf (cell s i)"
    and errs: "\<forall>i. errors s i = errorOf (cell s i)"
    and oks: "ok s \<longleftrightarrow> (\<forall>i < currentIndex s. errorOf (cell s i) = None)"
    by (simp_all add: recordedBundle_def)
  from assms(2,4) have cur: "index t < currentIndex s" by (simp add: structured_def)
  with sz have lt: "index t < length (results s)" by (simp add: sized_def)
  have c': "cell ?s' = (cell s)(index t := Some (fate t))"
    by (rule cell_Handle [OF assms(2,4,5)])
  have none: "cell s (index t) = None"
    by (rule cell_running [OF assms(4,5)])
  note h = handlers_Independently [OF assms(3), of "index t" "fate t" ?s0]
  have r: "results ?s' = (results s)[index t := resultOf (Some (fate t))]"
    using h(2) lt by (cases "fate t") (simp_all add: assign_within)
  have v: "values' ?s' = (case fate t of Fulfils r \<Rightarrow> (values' s)[index t := Some r]
      | Rejects e \<Rightarrow> values' s)"
    using h(3) lt lv by (cases "fate t") (simp_all add: assign_within)
  have e: "errors ?s' = (case fate t of Fulfils r \<Rightarrow> errors s
      | Rejects e \<Rightarrow> (errors s)(index t \<mapsto> e))"
    using h(4) by (cases "fate t") simp_all
  have k: "ok ?s' = (case fate t of Fulfils r \<Rightarrow> ok s | Rejects e \<Rightarrow> False)"
    using h(5) by (cases "fate t") simp_all
  have 1: "sized c ?s' (length (results ?s'))"
    unfolding r by (simp add: sized_cong [OF sz])
  have 2: "length (values' ?s') = length (results ?s')"
    unfolding r v using lv by (simp split: outcome.splits)
  have 3: "results ?s' ! i = resultOf (cell ?s' i) \<and> values' ?s' ! i = valueOf (cell ?s' i)"
    if "i < length (results ?s')" for i
  proof (cases "i = index t")
    case True
    with lt lv cells none show ?thesis
      unfolding c' r v by (cases "fate t") auto
  next
    case False
    with that cells show ?thesis
      unfolding c' r v by (cases "fate t") auto
  qed
  have 4: "errors ?s' i = errorOf (cell ?s' i)" for i
    using errs none unfolding c' e by (cases "fate t") auto
  have 5: "ok ?s' \<longleftrightarrow> (\<forall>i < currentIndex ?s'. errorOf (cell ?s' i) = None)"
  proof (cases "fate t")
    case (Fulfils r)
    have "errorOf (((cell s)(index t := Some (Fulfils r))) i) = errorOf (cell s i)" for i
      using none by simp
    with Fulfils oks show ?thesis
      unfolding c' k by simp
  next
    case (Rejects e)
    with cur show ?thesis
      unfolding c' k by auto
  qed
  show ?thesis
    unfolding recordedBundle_def using 1 2 3 4 5 by blast
qed

lemma grown_cells:
  assumes "\<forall>i < length xs. xs ! i = g (cell s i)" and "g None = None"
    and "\<And>i. length xs \<le> i \<Longrightarrow> cell s i = None"
    and "i < max (length xs) m"
  shows "setLength xs (max (length xs) m) ! i = g (cell s i)"
  using assms setLength_grow(2) [of i xs m] by (cases "i < length xs") simp_all

lemma recordedBundle_put:
  assumes "recordedBundle c s" and "structured c s" and "policy c = Independently"
    and "put c v s2 = Inr s3 \<or> put c v s2 = Inl (e, s3)"
    and "results s2 = results s" and "values' s2 = values' s" and "currentIndex s2 = currentIndex s"
    and "currentIndex s3 = Suc (currentIndex s) \<or>
         (currentIndex s3 = currentIndex s \<and> cb c v (currentIndex s) = Throws e)"
    and "currentIndex s3 \<le> length (source c)"
    and "cell (s3\<lparr>phase := p\<rparr>) = cell s"
    and "errors s3 = errors s" and "ok s3 = ok s"
  shows "recordedBundle c (s3\<lparr>phase := p\<rparr>)"
proof -
  from assms(1) have sz: "sized c s (length (results s))"
    and lv: "length (values' s) = length (results s)"
    and cells: "\<forall>i < length (results s). results s ! i = resultOf (cell s i)"
      "\<forall>i < length (values' s). values' s ! i = valueOf (cell s i)"
    and errs: "\<forall>i. errors s i = errorOf (cell s i)"
    and oks: "ok s \<longleftrightarrow> (\<forall>i < currentIndex s. errorOf (cell s i) = None)"
    by (simp_all add: recordedBundle_def)
  have beyond: "cell s i = None" if "length (results s) \<le> i" for i
    using that sz by (simp add: sized_def cell_beyond)
  have beyond': "cell s i = None" if "length (values' s) \<le> i" for i
    using that beyond lv by simp
  have ok': "ok s \<longleftrightarrow> (\<forall>i < currentIndex s3. errorOf (cell s i) = None)"
    using oks assms(8) by (auto simp: cell_beyond less_Suc_eq)
  show ?thesis
  proof (cases "backend c")
    case Indexed
    then have o: "results s3 = results s" "values' s3 = values' s"
      using put_arrays(2,3) [OF assms(4)] assms(5,6) by simp_all
    have "sized c (s3\<lparr>phase := p\<rparr>) (length (results s))"
      using sz assms(9) Indexed by (simp add: sized_def)
    with o cells lv errs ok' assms(10-12) show ?thesis
      by (simp add: recordedBundle_def)
  next
    case Iterated
    then have o: "results s3 = setLength (results s) (max (length (results s)) (Suc (currentIndex s)))"
      "values' s3 = setLength (values' s) (max (length (values' s)) (Suc (currentIndex s)))"
      using put_arrays(2,3) [OF assms(4)] assms(3,5,6,7) by simp_all
    have len: "length (results s3) = max (length (results s)) (Suc (currentIndex s))"
      "length (values' s3) = max (length (results s)) (Suc (currentIndex s))"
      unfolding o using lv by (auto simp: setLength_def)
    have nth: "results s3 ! i = resultOf (cell s i)" "values' s3 ! i = valueOf (cell s i)"
      if "i < length (results s3)" for i
      unfolding o
      using grown_cells [OF cells(1) _ beyond, of i "Suc (currentIndex s)"]
        grown_cells [OF cells(2) _ beyond', of i "Suc (currentIndex s)"] that len lv
      by simp_all
    have "sized c (s3\<lparr>phase := p\<rparr>) (length (results s3))"
      using sz assms(8) Iterated len
      by (auto simp: sized_def promises_def)
    with nth len errs ok' assms(10-12) show ?thesis
      by (simp add: recordedBundle_def)
  qed
qed

lemma recordedBundle_fire:
  assumes "recordedBundle c s" and "fire c ev s = Some s'" and "structured c s" and "tracked c s"
    and "policy c = Independently"
  shows "recordedBundle c s'"
  using assms(2)
proof (cases rule: fire_cases)
  case (Handle i t)
  with recordedBundle_Handle [OF assms(1,3,5) Handle(2,4)] show ?thesis by simp
next
  case (Finish i t)
  show ?thesis
    unfolding Finish(5)
    using cell_Finish [OF assms(3) Finish(2,4)] Finish(3)
    by (intro recordedBundle_same [OF assms(1)]) simp_all
next
  case (Dequeue i t)
  show ?thesis
    unfolding Dequeue(5)
    using cell_Dequeue [OF assms(3) Dequeue(2,4)] Dequeue(3)
    by (intro recordedBundle_same [OF assms(1)]) simp_all
next
  case (Res snap)
  show ?thesis
    unfolding Res(4) by (intro recordedBundle_same [OF assms(1)]) simp_all
next
  case (Next snap i)
  have tr': "tracked c s'" by (rule tracked_fire [OF assms(4,2,3)])
  show ?thesis
  proof (cases "stopping c s")
    case True
    have "cell (next' c s) = cell s" by (rule cell_next' [OF assms(3)])
    then show ?thesis
      unfolding Next(5) using True
      by (intro recordedBundle_same [OF assms(1)]) (simp_all add: next'_stop)
  next
    case False
    then show ?thesis
    proof (cases rule: next'_go)
      case (throw v e s3)
      have c: "cell (s3\<lparr>phase := Stopped\<rparr>) = cell s"
        using cell_next' [OF assms(3)] throw(3) by simp
      note fl = put_Inl_fields [OF throw(2)]
      show ?thesis
        unfolding Next(5) throw(3)
        using throw(2) fl(1,4,13,14) tracked_le [OF assms(4)] c
        by (intro recordedBundle_put [OF assms(1,3,5), of v
              "snd (canceled c (snd (nextItem c s)))" s3 e]) simp_all
    next
      case (admit v s3)
      have c: "cell (s3\<lparr>phase := Racing (map index (tasks s3))\<rparr>) = cell s"
        using cell_next' [OF assms(3)] admit(3) by simp
      note fl = put_Inr_fields(2-) [OF admit(2)]
      have "currentIndex s3 \<le> length (source c)"
        using tracked_le [OF tr'] Next(5) admit(3) by simp
      then show ?thesis
        unfolding Next(5) admit(3)
        using admit(2) fl(1,10,11) c
        by (intro recordedBundle_put [OF assms(1,3,5), of v
              "snd (canceled c (snd (nextItem c s)))" s3 undefined]) simp_all
    qed
  qed
qed

lemma reachable_recordedBundle:
  assumes "policy c = Independently"
  shows "reachable c s \<Longrightarrow> recordedBundle c s"
proof (induction rule: reachable.induct)
  case reach_start
  show ?case by (rule recordedBundle_start [OF assms])
next
  case (reach_fire s ev s')
  from recordedBundle_fire [OF reach_fire(3) reach_fire(2) reachable_structured [OF reach_fire(1)]
      reachable_tracked [OF reach_fire(1)] assms]
  show ?case .
qed

section \<open>The promise\<close>

lemma settling_start: "settling c (start c)"
proof (cases c rule: start_cases)
  case range
  then show ?thesis
    by (simp add: settling_def init_def Let_def cell_beyond)
next
  case (throw e s)
  from throw(2) have a: "tasks s = tasks s" "rejections s = []" "\<not> throwed s"
    by (simp_all add: admitting_def)
  have c: "cell (s\<lparr>promise := Rejected (Failure e)\<rparr>) = cell s"
    by (rule cell_cong) simp_all
  from throw(5) have "\<not> promises c" by (auto simp: promises_def)
  with throw(1) a show ?thesis
    unfolding throw(6) settling_def c
    by (simp add: cell_admitting [OF throw(2)] badLength_def)
next
  case (filled s)
  from filled(2) have a: "promise s = Pending" "rejections s = []" "\<not> throwed s"
    by (simp_all add: admitting_def)
  have c: "cell (s\<lparr>phase := Racing (map index (tasks s))\<rparr>) = cell s"
    by (rule cell_cong) simp_all
  from filled(1) a show ?thesis
    unfolding filled(5) settling_def c
    by (simp add: cell_admitting [OF filled(2)] badLength_def)
qed

lemma settling_same:
  assumes "settling c s" and "promise s' = promise s" and "phase s' = phase s"
    and "throwed s' = throwed s" and "rejections s' = rejections s" and "cell s' = cell s"
    and "currentIndex s' = currentIndex s" and "tasks s' = [] \<or> tasks s \<noteq> []"
  shows "settling c s'"
  using assms unfolding settling_def by (auto split: list.splits)

lemma settling_Handle:
  assumes "settling c s" and "structured c s" and "t \<in> set (tasks s)" and "stage t = Running"
  shows "settling c (handlers c (index t) (fate t)
           (s\<lparr>tasks := setStage (index t) Handled (tasks s)\<rparr>))"
proof -
  let ?s0 = "s\<lparr>tasks := setStage (index t) Handled (tasks s)\<rparr>"
  let ?s' = "handlers c (index t) (fate t) ?s0"
  from assms(3) have ne: "tasks s \<noteq> []" by auto
  with assms(1) have nr: "promise s \<noteq> Resolved" and nb: "\<not> badLength c"
    by (auto simp: settling_def)
  from assms(1) have thr: "throwed s \<longleftrightarrow> rejections s \<noteq> []"
    and rej: "\<forall>e. e \<in> set (rejections s) \<longleftrightarrow>
        policy c = Dependently \<and> (\<exists>i < currentIndex s. cell s i = Some (Rejects e))"
    and pr: "promise (start c) = Pending \<longrightarrow>
        (case rejections s of
           [] \<Rightarrow> promise s = Pending \<or> promise s = Resolved
         | e # es \<Rightarrow> promise s = Rejected (Failure e))"
    and ps: "promises c \<longrightarrow> phase s = Stopped \<longrightarrow> promise s \<noteq> Pending"
    using nb by (simp_all add: settling_def)
  from assms(2,3) have cur: "index t < currentIndex s" by (simp add: structured_def)
  have c': "cell ?s' = (cell s)(index t := Some (fate t))"
    by (rule cell_Handle [OF assms(2,3,4)])
  have none: "cell s (index t) = None"
    by (rule cell_running [OF assms(3,4)])
  have tk: "tasks ?s' \<noteq> []" using ne by (simp add: setStage_def)
  have ex: "(\<exists>i < currentIndex s. ((cell s)(index t := Some (fate t))) i = Some (Rejects e)) \<longleftrightarrow>
      (\<exists>i < currentIndex s. cell s i = Some (Rejects e)) \<or> fate t = Rejects e" for e
    using cur none by (metis (full_types) fun_upd_apply option.distinct(1) option.inject)
  show ?thesis
  proof (cases "policy c")
    case Independently
    note h = handlers_Independently [OF Independently, of "index t" "fate t" ?s0]
    from rej Independently have r0: "rejections s = []"
      by (metis all_not_in_conv policy.distinct(1) set_empty)
    show ?thesis
      unfolding settling_def c'
      using h(6,7,8) nr nb thr pr ps tk r0 Independently by (auto split: list.splits)
  next
    case Dependently
    note h = handlers_Dependently [OF Dependently, of "index t" "fate t" ?s0]
    show ?thesis
    proof (cases "fate t")
      case (Fulfils r)
      with h(6,7,8) have "throwed ?s' = throwed s" "rejections ?s' = rejections s"
        "promise ?s' = promise s" by simp_all
      then show ?thesis
        unfolding settling_def c'
        using nr nb thr pr ps tk rej ex Fulfils Dependently by (simp split: list.splits)
    next
      case (Rejects e)
      with h(6,7,8) have f: "throwed ?s'" "rejections ?s' = rejections s @ [e]"
        "promise ?s' = (if promise s = Pending then Rejected (Failure e) else promise s)"
        by simp_all
      have 1: "promise ?s' \<noteq> Resolved" using f(3) nr by simp
      have 2: "\<forall>e'. e' \<in> set (rejections ?s') \<longleftrightarrow>
        policy c = Dependently \<and>
        (\<exists>i < currentIndex ?s'. ((cell s)(index t := Some (fate t))) i = Some (Rejects e'))"
        using rej ex Rejects Dependently f(2) by auto
      have 3: "(case rejections ?s' of
           [] \<Rightarrow> promise ?s' = Pending \<or> promise ?s' = Resolved
         | e # es \<Rightarrow> promise ?s' = Rejected (Failure e))" if "promise (start c) = Pending"
        using pr that nr f(2,3) by (cases "rejections s") auto
      have 4: "promise ?s' \<noteq> Pending"
        using f(3) by simp
      show ?thesis
        unfolding settling_def c'
        using 1 2 3 4 nb f(1,2) by (simp split: list.splits)
    qed
  qed
qed

lemma drained:
  assumes "structured c s" and "phase s = Draining snap"
    and "\<forall>i \<in> set snap. i \<notin> set (map index (tasks s))"
  shows "tasks s = []"
proof (cases "tasks s")
  case Nil
  then show ?thesis .
next
  case (Cons t ts)
  with assms(1,2) have "index t \<in> set snap" by (auto simp: structured_def)
  with assms(3) Cons show ?thesis by auto
qed

lemma settling_moved:
  assumes "settling c s" and "promise s' = promise s" and "isRacing (phase s)"
    and "throwed s' = throwed s" and "rejections s' = rejections s" and "cell s' = cell s"
    and "currentIndex s' = currentIndex s \<or> currentIndex s' = Suc (currentIndex s)"
    and "phase s' = Stopped \<longrightarrow> \<not> promises c"
  shows "settling c s'"
proof -
  from assms(1,3) have nr: "promise s \<noteq> Resolved" and nb: "\<not> badLength c"
    by (auto simp: settling_def)
  have ex: "(\<exists>i < currentIndex s'. cell s i = Some (Rejects e)) \<longleftrightarrow>
      (\<exists>i < currentIndex s. cell s i = Some (Rejects e))" for e
    using assms(7) cell_beyond [of s "currentIndex s"] by (auto simp: less_Suc_eq)
  show ?thesis
    using assms(1,2,4,5,8) nr nb ex unfolding settling_def assms(6)
    by (auto split: list.splits)
qed

lemma settling_fire:
  assumes "settling c s" and "fire c ev s = Some s'" and "structured c s"
  shows "settling c s'"
  using assms(2)
proof (cases rule: fire_cases)
  case (Handle i t)
  with settling_Handle [OF assms(1,3) Handle(2,4)] show ?thesis by simp
next
  case (Finish i t)
  from Finish(2) have "tasks s \<noteq> []" by auto
  then show ?thesis
    unfolding Finish(5)
    using cell_Finish [OF assms(3) Finish(2,4)] Finish(3)
    by (intro settling_same [OF assms(1)]) simp_all
next
  case (Dequeue i t)
  from Dequeue(2) have "tasks s \<noteq> []" by auto
  then show ?thesis
    unfolding Dequeue(5)
    using cell_Dequeue [OF assms(3) Dequeue(2,4)] Dequeue(3)
    by (intro settling_same [OF assms(1)]) simp_all
next
  case (Res snap)
  have t: "tasks s = []" by (rule drained [OF assms(3) Res(2,3)])
  from assms(1) Res(2) have nb: "\<not> badLength c" by (auto simp: settling_def)
  show ?thesis
    unfolding Res(4) settling_def
    using assms(1) t nb by (auto simp: settling_def split: list.splits)
next
  case (Next snap i)
  from Next(2) have rc: "isRacing (phase s)" by simp
  have c: "cell (next' c s) = cell s" by (rule cell_next' [OF assms(3)])
  show ?thesis
  proof (cases "stopping c s")
    case True
    show ?thesis
      unfolding Next(5)
      using c True by (intro settling_moved [OF assms(1) _ rc]) (simp_all add: next'_stop)
  next
    case False
    then show ?thesis
    proof (cases rule: next'_go)
      case (throw v e s3)
      note fl = put_Inl_fields [OF throw(2)]
      from fl(1) have "\<not> promises c" by (auto simp: promises_def)
      then show ?thesis
        unfolding Next(5)
        using c fl(4,10,11,12) throw(3) by (intro settling_moved [OF assms(1) _ rc]) simp_all
    next
      case (admit v s3)
      note fl = put_Inr_fields(2-) [OF admit(2)]
      show ?thesis
        unfolding Next(5)
        using c fl(1,7,8,9) admit(3) by (intro settling_moved [OF assms(1) _ rc]) simp_all
    qed
  qed
qed

lemma reachable_settling: "reachable c s \<Longrightarrow> settling c s"
proof (induction rule: reachable.induct)
  case reach_start
  show ?case by (rule settling_start)
next
  case (reach_fire s ev s')
  from settling_fire [OF reach_fire(3) reach_fire(2) reachable_structured [OF reach_fire(1)]]
  show ?case .
qed

section \<open>Every run ends\<close>

lemma final_iff: "final c s \<longleftrightarrow> (\<forall>ev. fire c ev s = None)"
proof
  assume f: "final c s"
  show "\<forall>ev. fire c ev s = None"
  proof
    fix ev
    show "fire c ev s = None"
    proof (rule ccontr)
      assume "fire c ev s \<noteq> None"
      then obtain s' where s': "fire c ev s = Some s'" by auto
      from f have w: "fire c Wake s = None"
        and t: "\<And>t. t \<in> set (tasks s) \<Longrightarrow> fire c (Handle (index t)) s = None \<and>
          fire c (Finish (index t)) s = None \<and> fire c (Dequeue (index t)) s = None"
        unfolding final_def by blast+
      from s' show False
      proof (cases rule: fire_cases)
        case (Handle i t)
        with t [OF Handle(2)] s' show False by (simp del: fire.simps)
      next
        case (Finish i t)
        with t [OF Finish(2)] s' show False by (simp del: fire.simps)
      next
        case (Dequeue i t)
        with t [OF Dequeue(2)] s' show False by (simp del: fire.simps)
      next
        case (Next snap i)
        with w s' show False by (simp del: fire.simps)
      next
        case (Res snap)
        with w s' show False by (simp del: fire.simps)
      qed
    qed
  qed
next
  assume "\<forall>ev. fire c ev s = None"
  then show "final c s" unfolding final_def by blast
qed

lemma weight_setStage:
  "distinct (map index ts) \<Longrightarrow> t \<in> set ts \<Longrightarrow>
   sum_list (map (\<lambda>t. stageWeight (stage t)) (setStage (index t) st ts)) + stageWeight (stage t) =
   sum_list (map (\<lambda>t. stageWeight (stage t)) ts) + stageWeight st"
proof (induction ts)
  case Nil
  then show ?case by simp
next
  case (Cons a ts)
  show ?case
  proof (cases "a = t")
    case True
    with Cons.prems have "index t \<notin> index ` set ts" by simp
    then have "setStage (index t) st ts = ts" by (rule setStage_absent)
    with True show ?thesis by (simp add: setStage_def)
  next
    case False
    with Cons.prems have t: "t \<in> set ts" and ne: "index a \<noteq> index t" by auto
    from Cons.IH [OF _ t] Cons.prems(1) ne show ?thesis
      by (simp add: setStage_def)
  qed
qed

lemma weight_dequeue:
  "distinct (map index ts) \<Longrightarrow> t \<in> set ts \<Longrightarrow>
   sum_list (map (\<lambda>t. stageWeight (stage t)) (filter (\<lambda>u. index u \<noteq> index t) ts)) +
     stageWeight (stage t) =
   sum_list (map (\<lambda>t. stageWeight (stage t)) ts)"
proof (induction ts)
  case Nil
  then show ?case by simp
next
  case (Cons a ts)
  show ?case
  proof (cases "a = t")
    case True
    with Cons.prems have "index t \<notin> index ` set ts" by simp
    then have "filter (\<lambda>u. index u \<noteq> index t) ts = ts" by (rule filter_absent)
    with True show ?thesis by simp
  next
    case False
    with Cons.prems have t: "t \<in> set ts" and ne: "index a \<noteq> index t" by auto
    from Cons.IH [OF _ t] Cons.prems(1) ne show ?thesis by simp
  qed
qed

lemma stageWeight_pos: "0 < stageWeight st"
  by (cases st) simp_all

lemma remaining_cong:
  "currentIndex s' = currentIndex s \<Longrightarrow> iter s' = iter s \<Longrightarrow> remaining c s' = remaining c s"
  by (simp add: remaining_def split: backend.splits)

lemma remaining_nextItem:
  "remaining c (snd (nextItem c s)) \<le> remaining c s"
  "fst (nextItem c s) = Some v \<Longrightarrow>
   (case backend c of
      Indexed \<Rightarrow> currentIndex s < length (source c)
    | Iterated \<Rightarrow> Suc (length (iter (snd (nextItem c s)))) = length (iter s))"
  by (auto simp: remaining_def nextItem_def pull_def split: backend.splits list.splits if_splits)

lemma weight_fire:
  assumes "structured c s" and "fire c ev s = Some s'"
  shows "weight c s' < weight c s"
  using assms(2)
proof (cases rule: fire_cases)
  case (Handle i t)
  from assms(1) have d: "distinct (map index (tasks s))" by (simp add: structured_def)
  have "remaining c s' = remaining c s"
    unfolding Handle(5) by (rule remaining_cong) simp_all
  with weight_setStage [OF d Handle(2), of Handled] Handle(3,4) show ?thesis
    unfolding Handle(5) weight_def by simp
next
  case (Finish i t)
  from assms(1) have d: "distinct (map index (tasks s))" by (simp add: structured_def)
  have "remaining c s' = remaining c s"
    unfolding Finish(5) by (rule remaining_cong) simp_all
  with weight_setStage [OF d Finish(2), of Settled] Finish(3,4) show ?thesis
    unfolding Finish(5) weight_def by simp
next
  case (Dequeue i t)
  from assms(1) have d: "distinct (map index (tasks s))" by (simp add: structured_def)
  have "remaining c s' = remaining c s"
    unfolding Dequeue(5) by (rule remaining_cong) simp_all
  with weight_dequeue [OF d Dequeue(2)] Dequeue(3,4) show ?thesis
    unfolding Dequeue(5) weight_def by simp
next
  case (Res snap)
  have "remaining c s' = remaining c s"
    unfolding Res(4) by (rule remaining_cong) simp_all
  with Res(2) show ?thesis
    unfolding Res(4) weight_def by simp
next
  case (Next snap i)
  let ?s2 = "snd (canceled c (snd (nextItem c s)))"
  have r2: "remaining c ?s2 = remaining c (snd (nextItem c s))"
    by (rule remaining_cong) simp_all
  show ?thesis
  proof (cases "stopping c s")
    case True
    have "remaining c s' = remaining c ?s2"
      unfolding Next(5) next'_stop [OF True] by (rule remaining_cong) simp_all
    with r2 remaining_nextItem(1) [of c s] Next(2) True show ?thesis
      unfolding Next(5) weight_def by (simp add: next'_stop)
  next
    case False
    then show ?thesis
    proof (cases rule: next'_go)
      case (throw v e s3)
      note fl = put_Inl_fields [OF throw(2)]
      have "remaining c s' = remaining c ?s2"
        unfolding Next(5) throw(3) using fl(4,6) by (intro remaining_cong) simp_all
      with r2 remaining_nextItem(1) [of c s] Next(2) fl(2) show ?thesis
        unfolding Next(5) throw(3) weight_def by simp
    next
      case (admit v s3)
      obtain f where f: "tasks s3 = tasks s @ [\<lparr>index = currentIndex s, fate = f, stage = Running\<rparr>]"
        using put_Inr_fields(1) [OF admit(2)] by auto
      note fl = put_Inr_fields(2-) [OF admit(2)]
      have "Suc (remaining c s') = remaining c s"
        unfolding Next(5) admit(3)
        using remaining_nextItem(2) [OF admit(1)] fl(1,3)
        by (auto simp: remaining_def split: backend.splits)
      then have "4 * remaining c s' + 4 = 4 * remaining c s" by simp
      with f Next(2) show ?thesis
        unfolding Next(5) admit(3) weight_def by simp
    qed
  qed
qed

lemma exec_weight:
  "reachable c s \<Longrightarrow> exec c evs s = Some s' \<Longrightarrow> length evs + weight c s' \<le> weight c s"
proof (induction evs arbitrary: s)
  case Nil
  then show ?case by simp
next
  case (Cons ev evs)
  from Cons.prems(2) obtain s1 where s1: "fire c ev s = Some s1" "exec c evs s1 = Some s'"
    by (auto split: option.splits)
  from weight_fire [OF reachable_structured [OF Cons.prems(1)] s1(1)]
    Cons.IH [OF reach_fire [OF Cons.prems(1) s1(1)] s1(2)]
  show ?case by simp
qed

section \<open>Where a run ends\<close>

lemma find_some: "x \<in> set xs \<Longrightarrow> P x \<Longrightarrow> find P xs \<noteq> None"
  by (auto simp: find_None_none)

lemma final_tasks:
  assumes "final c s"
  shows "tasks s = []"
proof (cases "tasks s")
  case Nil
  then show ?thesis .
next
  case (Cons t ts)
  then have t: "t \<in> set (tasks s)" by simp
  with assms have n: "fire c (Handle (index t)) s = None" "fire c (Finish (index t)) s = None"
    "fire c (Dequeue (index t)) s = None"
    by (simp_all add: final_def del: fire.simps)
  show ?thesis
  proof (cases "stage t")
    case Running
    with find_some [OF t, of "\<lambda>u. index u = index t \<and> stage u = Running"] n(1)
    show ?thesis by (auto split: option.splits)
  next
    case Handled
    with find_some [OF t, of "\<lambda>u. index u = index t \<and> stage u = Handled"] n(2)
    show ?thesis by (auto split: option.splits)
  next
    case Settled
    with find_some [OF t, of "\<lambda>u. index u = index t \<and> stage u = Settled"] n(3)
    show ?thesis by (auto split: option.splits)
  qed
qed

lemma final_phase:
  assumes "final c s"
  shows "phase s = Stopped \<or> phase s = Racing []"
proof -
  from assms have w: "fire c Wake s = None" by (simp add: final_def del: fire.simps)
  note t = final_tasks [OF assms]
  show ?thesis
  proof (cases "phase s")
    case (Racing snap)
    with w t show ?thesis by (cases snap) (auto split: if_splits)
  next
    case (Draining snap)
    with w t show ?thesis by (auto split: if_splits)
  next
    case Stopped
    then show ?thesis by simp
  qed
qed

lemma phase_next':
  "phase (next' c s) = Draining (map index (tasks s)) \<or> phase (next' c s) = Stopped \<or>
   (phase (next' c s) = Racing (map index (tasks (next' c s))) \<and> tasks (next' c s) \<noteq> [])"
proof (cases "stopping c s")
  case True
  then show ?thesis by (simp add: next'_stop)
next
  case False
  then show ?thesis
  proof (cases rule: next'_go)
    case (throw v e s3)
    then show ?thesis by simp
  next
    case (admit v s3)
    with put_Inr_fields(1) [OF admit(2)] show ?thesis by auto
  qed
qed

lemma racing_nonempty:
  assumes "source c \<noteq> []" and "0 < window c"
  shows "reachable c s \<Longrightarrow> phase s \<noteq> Racing []"
proof (induction rule: reachable.induct)
  case reach_start
  show ?case
  proof (cases c rule: start_cases)
    case range
    then show ?thesis by simp
  next
    case (throw e s)
    then show ?thesis by (simp add: admitting_def)
  next
    case (filled s)
    with assms have "0 < currentIndex s" by simp
    with admitting_tasks(1) [OF filled(2)] have "map index (tasks s) \<noteq> []"
      by simp
    with filled(5) show ?thesis by simp
  qed
next
  case (reach_fire s ev s')
  from reach_fire(2) show ?case
  proof (cases rule: fire_cases)
    case (Next snap i)
    with phase_next' [of c s] show ?thesis by auto
  qed (use reach_fire(3) in simp_all)
qed

lemma nextItem_None:
  assumes "tracked c s" and "isRacing (phase s)" and "fst (nextItem c s) = None"
  shows "length (source c) \<le> srcpos c (currentIndex s)"
proof (cases "backend c")
  case Indexed
  with assms(3) show ?thesis
    by (auto simp: nextItem_def srcpos_def split: if_splits)
next
  case Iterated
  with assms(1,2) have "iter s = drop (srcpos c (currentIndex s)) (source c)"
    by (simp add: tracked_def)
  moreover from assms(3) Iterated have "iter s = []"
    by (auto simp: nextItem_def pull_def split: list.splits)
  ultimately show ?thesis by simp
qed

lemma throwed_fire:
  assumes "fire c ev s = Some s'" and "throwed s"
  shows "throwed s'"
  using assms(1)
proof (cases rule: fire_cases)
  case (Handle i t)
  with assms(2) show ?thesis
    by (simp add: handlers_def reject_def split: policy.splits outcome.splits)
next
  case (Next snap i)
  show ?thesis
  proof (cases "stopping c s")
    case True
    with Next(5) assms(2) show ?thesis by (simp add: next'_stop)
  next
    case False
    then show ?thesis
    proof (cases rule: next'_go)
      case (throw v e s3)
      with put_Inl_fields(11) [OF throw(2)] Next(5) assms(2) show ?thesis by simp
    next
      case (admit v s3)
      with put_Inr_fields(9) [OF admit(2)] Next(5) assms(2) show ?thesis by simp
    qed
  qed
qed (use assms(2) in simp_all)

lemma index_fire:
  assumes "fire c ev s = Some s'" and "\<not> isRacing (phase s)"
  shows "currentIndex s' = currentIndex s \<and> started s' = started s \<and> \<not> isRacing (phase s')"
  using assms(1)
proof (cases rule: fire_cases)
  case (Next snap i)
  with assms(2) show ?thesis by simp
qed (use assms(2) in simp_all)

lemma reachable_finishing:
  assumes "promises c" and "\<not> badLength c" and "neverCanceled c"
  shows "reachable c s \<Longrightarrow> \<not> isRacing (phase s) \<Longrightarrow>
         length (source c) \<le> srcpos c (currentIndex s) \<or> (policy c = Dependently \<and> throwed s)"
proof (induction rule: reachable.induct)
  case reach_start
  show ?case
  proof (cases c rule: start_cases)
    case range
    with assms(2) show ?thesis by (simp add: badLength_def)
  next
    case (throw e s)
    with assms(1) show ?thesis by (simp add: promises_def)
  next
    case (filled s)
    with reach_start show ?thesis by simp
  qed
next
  case (reach_fire s ev s')
  show ?case
  proof (cases "isRacing (phase s)")
    case False
    from index_fire [OF reach_fire(2) False] reach_fire(3) [OF False]
      throwed_fire [OF reach_fire(2)]
    show ?thesis by auto
  next
    case True
    from reach_fire(2) show ?thesis
    proof (cases rule: fire_cases)
      case (Next snap i)
      have nc: "\<not> fst (canceled c s)"
        using assms(3) by (auto simp: neverCanceled_def canceled_def split: option.splits)
      show ?thesis
      proof (cases "stopping c s")
        case st: True
        then have "fst (nextItem c s) = None \<or> (policy c = Dependently \<and> throwed s)"
          using nc by (simp add: stopping_def)
        with nextItem_None [OF reachable_tracked [OF reach_fire(1)] True] Next(5) st
        show ?thesis by (auto simp: next'_stop)
      next
        case False
        then show ?thesis
        proof (cases rule: next'_go)
          case (throw v e s3)
          with put_Inl_fields(1) [OF throw(2)] assms(1) show ?thesis
            by (simp add: promises_def)
        next
          case (admit v s3)
          with Next(5) reach_fire(4) show ?thesis by simp
        qed
      qed
    qed (use True reach_fire(4) in simp_all)
  qed
qed

section \<open>When all tasks have settled\<close>

lemma cell_done:
  assumes "tasks s = []" and "i < currentIndex s"
  shows "cell s i = Some (started s ! i)"
  using assms by (simp add: cell_def handled_def)

lemma cell_cases: "cell s i = None \<or> (i < currentIndex s \<and> cell s i = Some (started s ! i))"
  by (simp add: cell_def handled_def)

lemma started_source:
  assumes "tracked c s" and "i < currentIndex s"
  shows "srcpos c i < length (source c)"
    and "cb c (source c ! srcpos c i) i = Returns (started s ! i)"
  using assms by (simp_all add: tracked_def)

text \<open>
  The executor ends without an exception exactly when \<open>new Array\<close> does not throw and
  the work function returns a promise for every item of the pre-fill.
\<close>

lemma start_pending_iff:
  "promise (start c) = Pending \<longleftrightarrow>
   \<not> badLength c \<and>
   (\<forall>i. below i (r_threads (opts c)) \<and> i < length (source c) \<longrightarrow>
      (\<exists>f. cb c (source c ! i) i = Returns f))"
proof (cases c rule: start_cases)
  case range
  then show ?thesis by simp
next
  case (throw e s)
  from throw(3,4) have "below (currentIndex s) (r_threads (opts c)) \<and>
      currentIndex s < length (source c)"
    using window_less_conj [of "currentIndex s" c] by blast
  with throw(5) have "\<not> (\<forall>i. below i (r_threads (opts c)) \<and> i < length (source c) \<longrightarrow>
      (\<exists>f. cb c (source c ! i) i = Returns f))"
    by (metis reply.distinct(1))
  with throw(6) show ?thesis by simp
next
  case (filled s)
  from filled(2) have ret: "\<forall>i < currentIndex s. cb c (source c ! i) i = Returns (started s ! i)"
    and pen: "promise s = Pending"
    by (simp_all add: admitting_def)
  have "\<exists>f. cb c (source c ! i) i = Returns f"
    if "below i (r_threads (opts c)) \<and> i < length (source c)" for i
  proof -
    from that have "i < window c \<and> i < length (source c)"
      using window_less_conj [of i c] by blast
    with filled(3) have "i < currentIndex s" by simp
    with ret show ?thesis by blast
  qed
  with filled(1,5) pen show ?thesis by simp
qed

lemma start_pending:
  assumes "\<not> badLength c" and "promises c"
  shows "promise (start c) = Pending"
proof -
  from assms(2) have "\<exists>f. cb c v i = Returns f" for v i
    by (cases "cb c v i") (simp_all add: promises_def)
  with assms(1) show ?thesis by (simp add: start_pending_iff)
qed

lemma all_admitted:
  assumes "tracked c s" and "length (source c) \<le> srcpos c (currentIndex s)"
    and "backend c = Indexed \<or> length (source c) \<le> window c"
  shows "currentIndex s = length (source c)"
  using assms tracked_le [OF assms(1)]
  by (auto simp: srcpos_def split: if_splits)

lemma srcpos_same:
  "backend c = Indexed \<or> length (source c) \<le> window c \<Longrightarrow> i < length (source c) \<Longrightarrow>
   srcpos c i = i"
  by (auto simp: srcpos_def)

text \<open>
  The bundle of \<open>runIndependently\<close> where nothing is lost: in the array version, and in the
  iterator version over a source no longer than the window, a run that is not cancelled
  never rejects, and once resolved the bundle holds the outcome of every item at its
  index.
\<close>

lemma runIndependently_bundle:
  assumes "policy c = Independently"
    and "backend c = Indexed \<or> length (source c) \<le> window c"
    and "source c \<noteq> []" and "0 < window c" and "neverCanceled c"
    and "\<forall>v i. cb c v i = Returns (g v i)"
    and "reachable c s" and "\<not> badLength c"
  shows "(\<forall>x. promise s \<noteq> Rejected x) \<and>
         (promise s = Resolved \<longrightarrow>
            (\<forall>i < length (source c).
               results s ! i = resultOf (Some (g (source c ! i) i)) \<and>
               values' s ! i = valueOf (Some (g (source c ! i) i)) \<and>
               errors s i = errorOf (Some (g (source c ! i) i))) \<and>
            (\<forall>i \<ge> length (source c). errors s i = None) \<and>
            (ok s \<longleftrightarrow> (\<forall>i < length (source c). errorOf (Some (g (source c ! i) i)) = None)) \<and>
            length (values' s) = length (results s) \<and>
            length (results s) =
              (case backend c of Indexed \<Rightarrow> length (source c) | Iterated \<Rightarrow> window c)) \<and>
         (final c s \<longrightarrow> promise s = Resolved)"
proof -
  have p: "promises c" using assms(6) by (simp add: promises_def)
  note nb = assms(8)
  note sp0 = start_pending [OF nb p]
  note tr = reachable_tracked [OF assms(7)]
  note rb = reachable_recordedBundle [OF assms(1,7)]
  note se = reachable_settling [OF assms(7)]
  have fate: "started s ! i = g (source c ! srcpos c i) i" if "i < currentIndex s" for i
    using started_source(2) [OF tr that] assms(6) by simp
  from se assms(1) have "\<forall>e. e \<notin> set (rejections s)"
    unfolding settling_def by simp
  then have r0: "rejections s = []" by (cases "rejections s") auto
  with se p sp0 have pr: "promise s = Pending \<or> promise s = Resolved"
    and sp: "phase s = Stopped \<longrightarrow> promise s \<noteq> Pending" and nt: "\<not> throwed s"
    by (simp_all add: settling_def)
  have 1: "\<forall>x. promise s \<noteq> Rejected x" using pr by auto
  have 2: "(\<forall>i < length (source c).
               results s ! i = resultOf (Some (g (source c ! i) i)) \<and>
               values' s ! i = valueOf (Some (g (source c ! i) i)) \<and>
               errors s i = errorOf (Some (g (source c ! i) i))) \<and>
            (\<forall>i \<ge> length (source c). errors s i = None) \<and>
            (ok s \<longleftrightarrow> (\<forall>i < length (source c). errorOf (Some (g (source c ! i) i)) = None)) \<and>
            length (values' s) = length (results s) \<and>
            length (results s) =
              (case backend c of Indexed \<Rightarrow> length (source c) | Iterated \<Rightarrow> window c)"
    if res: "promise s = Resolved"
  proof -
    from se res have t: "tasks s = []" and ph: "phase s = Stopped"
      by (simp_all add: settling_def)
    from reachable_finishing [OF p nb assms(5,7)] ph nt
    have "length (source c) \<le> srcpos c (currentIndex s)" by simp
    from all_admitted [OF tr this assms(2)] have k: "currentIndex s = length (source c)" .
    from rb have sz: "sized c s (length (results s))"
      and lv: "length (values' s) = length (results s)"
      and cells: "\<forall>i < length (results s).
        results s ! i = resultOf (cell s i) \<and> values' s ! i = valueOf (cell s i)"
      and errs: "\<forall>i. errors s i = errorOf (cell s i)"
      and oks: "ok s \<longleftrightarrow> (\<forall>i < currentIndex s. errorOf (cell s i) = None)"
      by (simp_all add: recordedBundle_def)
    have len: "length (results s) =
        (case backend c of Indexed \<Rightarrow> length (source c) | Iterated \<Rightarrow> window c)"
      using sz k p nb assms(2) by (auto simp: sized_def split: backend.splits)
    have le: "length (source c) \<le> length (results s)"
      using sz k by (simp add: sized_def)
    have c: "cell s i = Some (g (source c ! i) i)" if "i < length (source c)" for i
      using cell_done [OF t, of i] fate [of i] that k srcpos_same [OF assms(2) that] by simp
    have c': "cell s i = None" if "length (source c) \<le> i" for i
      using that k by (simp add: cell_beyond)
    show ?thesis
      using cells errs oks lv len le c c' k by auto
  qed
  have 3: "promise s = Resolved" if "final c s"
  proof -
    from final_phase [OF that] racing_nonempty [OF assms(3,4,7)] have "phase s = Stopped"
      by simp
    with sp pr show ?thesis by simp
  qed
  from 1 2 3 show ?thesis by blast
qed

section \<open>After cancellation\<close>





section \<open>A settled promise stays\<close>

lemma promise_fire:
  assumes "fire c ev s = Some s'" and "promise s \<noteq> Pending"
  shows "promise s' = promise s"
  using assms(1)
proof (cases rule: fire_cases)
  case (Handle i t)
  with assms(2) show ?thesis
    by (simp add: handlers_def reject_def split: policy.splits outcome.splits)
next
  case (Next snap i)
  show ?thesis
  proof (cases "stopping c s")
    case True
    with Next(5) show ?thesis by (simp add: next'_stop)
  next
    case False
    then show ?thesis
    proof (cases rule: next'_go)
      case (throw v e s3)
      with put_Inl_fields(10) [OF throw(2)] Next(5) show ?thesis by simp
    next
      case (admit v s3)
      with put_Inr_fields(8) [OF admit(2)] Next(5) show ?thesis by simp
    qed
  qed
qed (use assms(2) in simp_all)

lemma promise_exec:
  "promise s \<noteq> Pending \<Longrightarrow> exec c evs s = Some s' \<Longrightarrow> promise s' = promise s"
proof (induction evs arbitrary: s)
  case Nil
  then show ?case by simp
next
  case (Cons ev evs)
  from Cons.prems(2) obtain s1 where s1: "fire c ev s = Some s1" "exec c evs s1 = Some s'"
    by (auto split: option.splits)
  from promise_fire [OF s1(1) Cons.prems(1)] Cons.IH [OF _ s1(2)] Cons.prems(1)
  show ?case by simp
qed

section \<open>After the continuation has ended\<close>

lemma stopped_fire:
  assumes "fire c ev s = Some s'" and "phase s = Stopped"
  shows "phase s' = Stopped \<and> currentIndex s' = currentIndex s \<and>
         (policy c = Independently \<longrightarrow> promise s' = promise s)"
  using assms(1)
proof (cases rule: fire_cases)
  case (Handle i t)
  with assms(2) show ?thesis
    by (simp add: handlers_Independently(8))
qed (use assms(2) in simp_all)



lemma thrown_stays:
  assumes "promise (start c) = Rejected x" and "phase (start c) = Stopped"
  shows "reachable c s \<Longrightarrow>
         promise s = Rejected x \<and> phase s = Stopped \<and> currentIndex s = currentIndex (start c)"
proof (induction rule: reachable.induct)
  case reach_start
  with assms show ?case by simp
next
  case (reach_fire s ev s')
  with stopped_fire [OF reach_fire(2)] promise_fire [OF reach_fire(2)] show ?case by simp
qed

lemma put_throws:
  "cb c v (currentIndex s) = Throws e \<Longrightarrow> \<exists>s3. put c v s = Inl (e, s3)"
  by (simp add: put_def Let_def)


section \<open>The iterator\<close>

lemma draining_fire:
  assumes "fire c ev s = Some s'" and "\<not> isRacing (phase s)"
  shows "iter s' = iter s"
  using assms(1)
proof (cases rule: fire_cases)
  case (Next snap i)
  with assms(2) show ?thesis by simp
qed simp_all

lemma draining_exec:
  "\<not> isRacing (phase s) \<Longrightarrow> exec c evs s = Some s' \<Longrightarrow>
   currentIndex s' = currentIndex s \<and> started s' = started s \<and> iter s' = iter s"
proof (induction evs arbitrary: s)
  case Nil
  then show ?case by simp
next
  case (Cons ev evs)
  from Cons.prems(2) obtain s1 where s1: "fire c ev s = Some s1" "exec c evs s1 = Some s'"
    by (auto split: option.splits)
  from index_fire [OF s1(1) Cons.prems(1)] draining_fire [OF s1(1) Cons.prems(1)]
    Cons.IH [OF _ s1(2)]
  show ?case by simp
qed

lemma iter_next':
  assumes "backend c = Iterated"
  shows "iter (next' c s) = tl (iter s)"
proof -
  have p: "iter (snd (nextItem c s)) = tl (iter s)"
    using assms by (simp add: nextItem_def pull_def split: list.splits)
  show ?thesis
  proof (cases "stopping c s")
    case True
    with p show ?thesis by (simp add: next'_stop)
  next
    case False
    then show ?thesis
    proof (cases rule: next'_go)
      case (throw v e s3)
      with put_Inl_fields(6) [OF throw(2)] p show ?thesis by simp
    next
      case (admit v s3)
      with put_Inr_fields(4) [OF admit(2)] p show ?thesis by simp
    qed
  qed
qed

section \<open>The window as a count\<close>

lemma window_below: "k < window c \<Longrightarrow> below k (r_threads (opts c))"
proof (cases "r_threads (opts c)")
  case (Fin q)
  assume "k < window c"
  with Fin below_ceiling [of k q] show ?thesis by (simp add: window_def)
qed (simp_all add: window_def)

lemma window_nat: "r_threads (opts c) = Fin (of_nat w) \<Longrightarrow> window c = w"
  by (simp add: window_def)

lemma admits_after_removal:
  assumes "structured c s" and "fire c ev s = Some s'" and "currentIndex s' \<noteq> currentIndex s"
  shows "\<exists>i. i < currentIndex s \<and> i \<notin> set (map index (tasks s))"
  using assms(2)
proof (cases rule: fire_cases)
  case (Next snap i)
  from assms(1) Next(2,3) have "i < currentIndex s" by (auto simp: structured_def)
  with Next(4) show ?thesis by blast
qed (use assms(3) in simp_all)

lemma start_tasks: "length (tasks (start c)) = currentIndex (start c)"
proof -
  have len: "length (tasks s) = currentIndex s" if "admitting c s" for s
  proof -
    from that have "map index (tasks s) = [0..<currentIndex s]" by (simp add: admitting_def)
    then have "length (map index (tasks s)) = length [0..<currentIndex s]" by simp
    then show ?thesis by simp
  qed
  show ?thesis
  proof (cases c rule: start_cases)
    case range
    then show ?thesis by simp
  next
    case (throw e s)
    with len [OF throw(2)] show ?thesis by simp
  next
    case (filled s)
    with len [OF filled(2)] show ?thesis by simp
  qed
qed

lemma start_rejected_stopped:
  assumes "promise (start c) = Rejected x"
  shows "phase (start c) = Stopped"
proof (cases c rule: start_cases)
  case range
  then show ?thesis by simp
next
  case (throw e s)
  with admitting_tasks(6) [OF throw(2)] show ?thesis by simp
next
  case (filled s)
  with admitting_tasks(5) [OF filled(2)] assms show ?thesis by simp
qed

section \<open>The result of \<open>runDependently\<close> where nothing is lost\<close>

text \<open>
  Let the source be non-empty, the window positive, the run not cancelled, and let every
  call of the work function return a promise that fulfils, with \<open>f v i\<close> for item \<open>v\<close> at
  index \<open>i\<close>. In the array version, and in the iterator version when the source is no longer
  than the window (a valid array length), \<open>runDependently\<close> never rejects; whenever it has
  resolved, the output holds \<open>f\<close> of the item of index \<open>i\<close> at position \<open>i\<close>, for each of
  the \<open>N\<close> items in order, and nothing else but, in the iterator version, empty cells up
  to the length \<open>window\<close>; every run that has ended has resolved; and no run is longer
  than the weight of its first state. This holds for every order in which the tasks
  settle.
\<close>

lemma runDependently_array:
  assumes "policy c = Dependently"
    and "backend c = Indexed \<or> length (source c) \<le> window c"
    and "source c \<noteq> []" and "0 < window c" and "neverCanceled c"
    and "\<forall>v i. cb c v i = Returns (Fulfils (f v i))"
    and "reachable c s" and "\<not> badLength c"
  shows "(\<forall>x. promise s \<noteq> Rejected x) \<and>
         (promise s = Resolved \<longrightarrow>
            out s = map (\<lambda>i. Some (f (source c ! i) i)) [0..<length (source c)] @
              replicate (case backend c of Indexed \<Rightarrow> 0
                         | Iterated \<Rightarrow> window c - length (source c)) None) \<and>
         (final c s \<longrightarrow> promise s = Resolved) \<and>
         (\<forall>evs s'. exec c evs s = Some s' \<longrightarrow> length evs \<le> weight c s)"
proof -
  have p: "promises c" using assms(6) by (simp add: promises_def)
  note nb = assms(8)
  note sp0 = start_pending [OF nb p]
  note st = reachable_structured [OF assms(7)]
  note tr = reachable_tracked [OF assms(7)]
  note ro = reachable_recordedOut [OF assms(1,7)]
  note se = reachable_settling [OF assms(7)]
  have fate: "started s ! i = Fulfils (f (source c ! srcpos c i) i)" if "i < currentIndex s" for i
    using started_source(2) [OF tr that] assms(6) by simp
  have noRej: "cell s i \<noteq> Some (Rejects e)" for i e
    using cell_cases [of s i] fate [of i] by auto
  from se have "\<forall>e. e \<notin> set (rejections s)"
    using noRej unfolding settling_def by blast
  then have r0: "rejections s = []" by (cases "rejections s") auto
  with se p sp0 have pr: "promise s = Pending \<or> promise s = Resolved"
    and sp: "phase s = Stopped \<longrightarrow> promise s \<noteq> Pending" and nt: "\<not> throwed s"
    by (simp_all add: settling_def)
  have 1: "\<forall>x. promise s \<noteq> Rejected x" using pr by auto
  have 2: "out s = map (\<lambda>i. Some (f (source c ! i) i)) [0..<length (source c)] @
              replicate (case backend c of Indexed \<Rightarrow> 0
                         | Iterated \<Rightarrow> window c - length (source c)) None"
    if res: "promise s = Resolved"
  proof -
    from se res have t: "tasks s = []" and ph: "phase s = Stopped"
      by (simp_all add: settling_def)
    from reachable_finishing [OF p nb assms(5,7)] ph nt
    have "length (source c) \<le> srcpos c (currentIndex s)" by simp
    from all_admitted [OF tr this assms(2)] have k: "currentIndex s = length (source c)" .
    from ro have sz: "sized c s (length (out s))"
      and cells: "\<forall>i < length (out s). out s ! i = valueOf (cell s i)"
      by (simp_all add: recordedOut_def)
    have len: "length (out s) = length (source c) +
        (case backend c of Indexed \<Rightarrow> 0 | Iterated \<Rightarrow> window c - length (source c))"
      using sz k p nb assms(2) by (auto simp: sized_def split: backend.splits)
    show ?thesis
    proof (rule nth_equalityI)
      show "length (out s) = length (map (\<lambda>i. Some (f (source c ! i) i)) [0..<length (source c)] @
              replicate (case backend c of Indexed \<Rightarrow> 0
                         | Iterated \<Rightarrow> window c - length (source c)) None)"
        using len by simp
    next
      fix i assume i: "i < length (out s)"
      show "out s ! i = (map (\<lambda>i. Some (f (source c ! i) i)) [0..<length (source c)] @
              replicate (case backend c of Indexed \<Rightarrow> 0
                         | Iterated \<Rightarrow> window c - length (source c)) None) ! i"
      proof (cases "i < length (source c)")
        case True
        with k have "cell s i = Some (started s ! i)" using cell_done [OF t] by simp
        with fate [of i] True k srcpos_same [OF assms(2) True]
        have "valueOf (cell s i) = Some (f (source c ! i) i)" by simp
        with cells i True show ?thesis by (simp add: nth_append)
      next
        case False
        with k have "cell s i = None" by (simp add: cell_beyond)
        with cells i False len show ?thesis by (simp add: nth_append)
      qed
    qed
  qed
  have 3: "promise s = Resolved" if "final c s"
  proof -
    from final_phase [OF that] racing_nonempty [OF assms(3,4,7)] have "phase s = Stopped"
      by simp
    with sp pr show ?thesis by simp
  qed
  have 4: "length evs \<le> weight c s" if "exec c evs s = Some s'" for evs s'
    using exec_weight [OF assms(7) that] by simp
  from 1 2 3 4 show ?thesis by blast
qed

section \<open>The resolved window\<close>

text \<open>
  C9, as the claim states it, fails: the default is used as it is, so a default set below
  2 gives a window below 2 to every call that leaves \<open>threads\<close> out.
\<close>

theorem getOptions_default_below_two:
  "\<not> lessEq (Fin 2) (r_threads (getOptions False (Fin 1) None)) \<and>
   r_threads (getOptions False (Fin 1) None) = Fin 1"
  by (simp add: getOptions_def)

text \<open>
  C9, amended: the resolved window is \<open>Math.max(threads, 2)\<close> when \<open>threads\<close> is a number
  that \<open>isNumber\<close> accepts (every number, NaN left open), and the current default when
  there are no options or \<open>threads\<close> is not such a number; it is at least 2 when \<open>threads\<close>
  is such a number or the current default is at least 2, as the initial default 4 is,
  unless \<open>threads\<close> is NaN and \<open>isNumber\<close> accepts NaN: then the window is NaN.
\<close>

theorem getOptions_window:
  "r_threads (getOptions nan d None) = d \<and>
   (threads os = Num n \<and> (n = NaN \<longrightarrow> nan) \<longrightarrow>
      r_threads (getOptions nan d (Some os)) = mathMax n (Fin 2)) \<and>
   (\<not> isNumber nan (threads os) \<longrightarrow> r_threads (getOptions nan d (Some os)) = d) \<and>
   ((nan \<longrightarrow> threads os \<noteq> Num NaN) \<longrightarrow> isNumber nan (threads os) \<or> lessEq (Fin 2) d \<longrightarrow>
      lessEq (Fin 2) (r_threads (getOptions nan d (Some os)))) \<and>
   (nan \<and> threads os = Num NaN \<longrightarrow> r_threads (getOptions nan d (Some os)) = NaN) \<and>
   (lessEq (Fin 2) d \<longrightarrow> lessEq (Fin 2) (r_threads (getOptions nan d None))) \<and>
   lessEq (Fin 2) (r_threads (getOptions nan initialDefaultThreads None)) \<and>
   ((nan \<longrightarrow> threads os \<noteq> Num NaN) \<longrightarrow>
      lessEq (Fin 2) (r_threads (getOptions nan initialDefaultThreads (Some os))))"
proof -
  have m: "lessEq (Fin 2) (mathMax x (Fin 2))" if "x \<noteq> NaN" for x
    using that by (cases x) simp_all
  have 1: "r_threads (getOptions nan d None) = d" for d
    by (simp add: getOptions_def)
  have 2: "r_threads (getOptions nan d (Some os)) = mathMax n (Fin 2)"
    if "threads os = Num n \<and> (n = NaN \<longrightarrow> nan)" for d
    using that by (cases n) (simp_all add: getOptions_def)
  have 3: "r_threads (getOptions nan d (Some os)) = d" if "\<not> isNumber nan (threads os)" for d
    using that by (simp add: getOptions_def)
  have 4: "lessEq (Fin 2) (r_threads (getOptions nan d (Some os)))"
    if a: "nan \<longrightarrow> threads os \<noteq> Num NaN" and b: "isNumber nan (threads os) \<or> lessEq (Fin 2) d"
    for d
  proof (cases "isNumber nan (threads os)")
    case False
    with b 3 [OF False, of d] show ?thesis by simp
  next
    case True
    then obtain x where x: "threads os = Num x"
      by (cases "threads os") simp_all
    with True a have nn: "x \<noteq> NaN" by (cases x) auto
    with x True m [OF nn] show ?thesis by (simp add: getOptions_def)
  qed
  have 5: "r_threads (getOptions nan d (Some os)) = NaN" if "nan \<and> threads os = Num NaN"
    using that by (simp add: getOptions_def)
  have 6: "lessEq (Fin 2) initialDefaultThreads"
    by (simp add: initialDefaultThreads_def)
  from 1 [of d] 1 [of initialDefaultThreads] 2 [of d] 3 [of d] 4 [of d]
    4 [of initialDefaultThreads] 5 6
  show ?thesis by presburger
qed

theorem getOptions_window_witness:
  "threads \<lparr>threads = Num (Fin 1), isCanceled = Missing, onProgress = Missing\<rparr> = Num (Fin 1) \<and>
   r_threads (getOptions False (Fin 4)
     (Some \<lparr>threads = Num (Fin 1), isCanceled = Missing, onProgress = Missing\<rparr>)) = Fin 2 \<and>
   \<not> isNumber False (threads \<lparr>threads = Undefined, isCanceled = Missing, onProgress = Missing\<rparr>) \<and>
   r_threads (getOptions False (Fin 4)
     (Some \<lparr>threads = Undefined, isCanceled = Missing, onProgress = Missing\<rparr>)) = Fin 4 \<and>
   r_threads (getOptions False (Fin 4) None) = Fin 4"
  using getOptions_window [of False "Fin 4"
      "\<lparr>threads = Num (Fin 1), isCanceled = Missing, onProgress = Missing\<rparr>" "Fin 1"]
    getOptions_window [of False "Fin 4"
      "\<lparr>threads = Undefined, isCanceled = Missing, onProgress = Missing\<rparr>" "Fin 0"]
  by simp

section \<open>The window bounds the tasks in flight\<close>

text \<open>
  C6, as the claim states it, fails for a window that is not an integer: the pre-fill
  tests \<open>currentIndex < threads\<close>, so with the window 2.5 it admits three tasks over three
  items, and three tasks are in flight.
\<close>

theorem window_exceeded:
  "r_threads (opts fractional) = Fin (5 / 2) \<and>
   length (tasks (start fractional)) = 3 \<and>
   \<not> lessEq (Fin (of_nat (length (tasks (start fractional))))) (r_threads (opts fractional))"
  by code_simp

text \<open>
  C6, amended: in every state of every call, of either entry point and either version,
  when \<open>tasks\<close> holds \<open>n + 1\<close> tasks then \<open>n\<close> is less than the resolved window \<open>W\<close>; so
  \<open>tasks\<close> never holds more than \<open>W\<close> tasks when \<open>W\<close> is an integer, and fewer than \<open>W + 1\<close>
  in general. The pre-fill admits its task number \<open>n + 1\<close> only when \<open>n\<close> is less than
  \<open>W\<close>, and all the tasks it admits are in \<open>tasks\<close> when it ends. Afterwards an event admits
  a task only when it is a turn of \<open>next\<close>, which runs after a task admitted earlier has
  left \<open>tasks\<close>: the number of tasks in \<open>tasks\<close> is then less than \<open>W\<close>, and exactly one is
  admitted.
\<close>

theorem tasks_within_window:
  "reachable c s \<Longrightarrow>
   (\<forall>n. length (tasks s) = Suc n \<longrightarrow> below n (r_threads (opts c))) \<and>
   (\<forall>w. r_threads (opts c) = Fin (of_nat w) \<longrightarrow> length (tasks s) \<le> w) \<and>
   (\<forall>n. currentIndex (start c) = Suc n \<longrightarrow> below n (r_threads (opts c))) \<and>
   length (tasks (start c)) = currentIndex (start c) \<and>
   (\<forall>ev s'. fire c ev s = Some s' \<longrightarrow> currentIndex s' \<noteq> currentIndex s \<longrightarrow>
      ev = Wake \<and> (\<exists>i. i < currentIndex s \<and> i \<notin> set (map index (tasks s))) \<and>
      below (length (tasks s)) (r_threads (opts c)) \<and>
      currentIndex s' = Suc (currentIndex s) \<and> length (tasks s') = Suc (length (tasks s)))"
proof -
  assume r: "reachable c s"
  note st = reachable_structured [OF r]
  from st have le: "length (tasks s) \<le> window c" by (simp add: structured_def)
  have 1: "below n (r_threads (opts c))" if "length (tasks s) = Suc n" for n
    using le that by (intro window_below) simp
  have 2: "length (tasks s) \<le> w" if "r_threads (opts c) = Fin (of_nat w)" for w
    using le window_nat [OF that] by simp
  have 3: "below n (r_threads (opts c))" if "currentIndex (start c) = Suc n" for n
    using start_index_le [of c] that by (intro window_below) simp
  have 4: "ev = Wake \<and> (\<exists>i. i < currentIndex s \<and> i \<notin> set (map index (tasks s))) \<and>
      below (length (tasks s)) (r_threads (opts c)) \<and>
      currentIndex s' = Suc (currentIndex s) \<and> length (tasks s') = Suc (length (tasks s))"
    if "fire c ev s = Some s'" and "currentIndex s' \<noteq> currentIndex s" for ev s'
    using admits_one [OF st that] admits_after_removal [OF st that] window_below [of "length (tasks s)" c]
    by blast
  from 1 2 3 4 start_tasks [of c] show ?thesis by blast
qed

theorem tasks_within_window_witness:
  "reachable fractional
     (the (exec fractional [Handle 1, Finish 1, Dequeue 1] (start fractional))) \<and>
   length (tasks (the (exec fractional [Handle 1, Finish 1, Dequeue 1] (start fractional)))) = 2 \<and>
   below 1 (r_threads (opts fractional)) \<and>
   reachable (runDependently Indexed [1, 2, 3] doubling (threadsOnly 2) initialDefaultThreads)
     (the (exec (runDependently Indexed [1, 2, 3] doubling (threadsOnly 2) initialDefaultThreads)
        [Handle 1, Finish 1, Dequeue 1]
        (start (runDependently Indexed [1, 2, 3] doubling (threadsOnly 2) initialDefaultThreads)))) \<and>
   length (tasks (the (exec (runDependently Indexed [1, 2, 3] doubling (threadsOnly 2) initialDefaultThreads)
        [Handle 1, Finish 1, Dequeue 1]
        (start (runDependently Indexed [1, 2, 3] doubling (threadsOnly 2) initialDefaultThreads))))) = 1 \<and>
   (\<exists>s'. fire (runDependently Indexed [1, 2, 3] doubling (threadsOnly 2) initialDefaultThreads) Wake
        (the (exec (runDependently Indexed [1, 2, 3] doubling (threadsOnly 2) initialDefaultThreads)
        [Handle 1, Finish 1, Dequeue 1]
        (start (runDependently Indexed [1, 2, 3] doubling (threadsOnly 2) initialDefaultThreads)))) = Some s' \<and>
      currentIndex s' = 3 \<and> length (tasks s') = 2)"
proof -
  define c where "c = runDependently Indexed [1, 2, 3] doubling (threadsOnly 2) initialDefaultThreads"
  define s where "s = the (exec c [Handle 1, Finish 1, Dequeue 1] (start c))"
  define t where "t = the (exec fractional [Handle 1, Finish 1, Dequeue 1] (start fractional))"
  have "exec fractional [Handle 1, Finish 1, Dequeue 1] (start fractional) \<noteq> None"
    by code_simp
  then have rt: "reachable fractional t"
    unfolding t_def by (rule run_reachable_the)
  have lt: "length (tasks t) = Suc 1"
    unfolding t_def by code_simp
  with tasks_within_window [OF rt] have bt: "below 1 (r_threads (opts fractional))"
    by blast
  have st: "exec c [Handle 1, Finish 1, Dequeue 1] (start c) \<noteq> None"
    unfolding c_def by code_simp
  then have r: "reachable c s"
    unfolding s_def by (rule run_reachable_the)
  have l: "length (tasks s) = 1"
    unfolding s_def c_def by code_simp
  have f: "fire c Wake s \<noteq> None"
    unfolding s_def c_def by code_simp
  have i: "currentIndex s = 2"
    unfolding s_def c_def by code_simp
  have i': "currentIndex (the (fire c Wake s)) = 3"
    unfolding s_def c_def by code_simp
  from f obtain s' where s': "fire c Wake s = Some s'" by auto
  with i i' have "currentIndex s' \<noteq> currentIndex s" by simp
  with tasks_within_window [OF r] s' have "length (tasks s') = Suc (length (tasks s))"
    by blast
  with l s' i' have "\<exists>s'. fire c Wake s = Some s' \<and> currentIndex s' = 3 \<and> length (tasks s') = 2"
    by simp
  with rt lt bt r l show ?thesis
    unfolding s_def c_def t_def by simp
qed

section \<open>An empty source\<close>

text \<open>
  C3, on the code: over an empty source the pre-fill admits no task, and then the call
  never finalizes. The executor ends on \<open>Promise.race\<close> of no task, which never settles,
  so no event can happen: the state after the executor is the only one, and the promise
  stays pending (in the iterator version with a window that is no array length it is
  rejected with the \<open>RangeError\<close> of \<open>new Array\<close>). This holds for both entry points and
  both versions.
\<close>

theorem empty_source_never_settles:
  "reachable c s \<Longrightarrow> source c = [] \<Longrightarrow>
   s = start c \<and> tasks s = [] \<and> currentIndex s = 0 \<and> (\<forall>ev. fire c ev s = None) \<and>
   promise s = (if badLength c then Rejected RangeError else Pending)"
proof (induction rule: reachable.induct)
  case reach_start
  with start_empty [of c] no_tasks_no_event [of "start c" c] show ?case by auto
next
  case (reach_fire s ev s')
  from reach_fire.IH [OF reach_fire.prems] have "\<forall>ev. fire c ev s = None"
    by (elim conjE)
  then have "fire c ev s = None" ..
  with reach_fire(2) show ?case by simp
qed

theorem empty_source_never_settles_witness:
  "source (runDependently Indexed [] doubling None initialDefaultThreads) = [] \<and>
   reachable (runDependently Indexed [] doubling None initialDefaultThreads)
     (start (runDependently Indexed [] doubling None initialDefaultThreads)) \<and>
   promise (start (runDependently Indexed [] doubling None initialDefaultThreads)) = Pending \<and>
   fire (runDependently Indexed [] doubling None initialDefaultThreads) Wake
     (start (runDependently Indexed [] doubling None initialDefaultThreads)) = None \<and>
   source (runIndependently Iterated [] doubling None initialDefaultThreads) = [] \<and>
   reachable (runIndependently Iterated [] doubling None initialDefaultThreads)
     (start (runIndependently Iterated [] doubling None initialDefaultThreads)) \<and>
   promise (start (runIndependently Iterated [] doubling None initialDefaultThreads)) = Pending \<and>
   fire (runIndependently Iterated [] doubling None initialDefaultThreads) Wake
     (start (runIndependently Iterated [] doubling None initialDefaultThreads)) = None"
proof -
  define c1 :: "(int, int, string) call"
    where "c1 = runDependently Indexed [] doubling None initialDefaultThreads"
  define c2 :: "(int, int, string) call"
    where "c2 = runIndependently Iterated [] doubling None initialDefaultThreads"
  have 1: "source c1 = []" and 2: "source c2 = []"
    by (simp_all add: c1_def c2_def runDependently_def runIndependently_def)
  have 3: "\<not> badLength c1"
    by (simp add: c1_def badLength_def runDependently_def)
  have 4: "\<not> badLength c2"
    by (simp add: c2_def badLength_def runIndependently_def opts_def getOptions_def
        initialDefaultThreads_def)
  have a: "(\<forall>ev. fire c1 ev (start c1) = None) \<and> promise (start c1) = Pending"
    using empty_source_never_settles [OF reach_start 1] 3 by presburger
  have b: "(\<forall>ev. fire c2 ev (start c2) = None) \<and> promise (start c2) = Pending"
    using empty_source_never_settles [OF reach_start 2] 4 by presburger
  from a b 1 2 reach_start [of c1] reach_start [of c2] show ?thesis
    unfolding c1_def c2_def by blast
qed

section \<open>The pre-fill and the cancellation predicate\<close>

text \<open>
  C8, as the claim states it, fails when the executor ends with an exception: with window
  2 over three items, an \<open>isCanceled\<close> that always answers true and a work function that
  throws for the second item, the pre-fill admits one task, not \<open>min W N = 2\<close>, and the
  promise is rejected. (It also fails in the iterator version when \<open>new Array(threads)\<close>
  throws, where no task is admitted, and for a window that is not an integer, where
  the pre-fill admits more than \<open>min W N\<close> tasks.)
\<close>

theorem prefill_cut_short:
  "r_threads (opts cancelledThrowing) = Fin 2 \<and>
   length (source cancelledThrowing) = 3 \<and>
   length (tasks (start cancelledThrowing)) = 1 \<and>
   currentIndex (start cancelledThrowing) = 1 \<and>
   promise (start cancelledThrowing) = Rejected (Failure ''boom'')"
  by code_simp

text \<open>
  C8, amended: the executor never calls \<open>isCanceled\<close>, whatever that predicate would
  answer, and in no state of the call has \<open>isCanceled\<close> been called with no task settled:
  every call of it saw a settled count of at least one. When the executor ends without an
  exception (\<open>new Array(threads)\<close> does not throw and the work function returns a promise
  for every item of the pre-fill), it has admitted and started the tasks of exactly the
  indices \<open>i\<close> with \<open>i < W\<close> and \<open>i < N\<close>, which are \<open>min W N\<close> tasks when the window \<open>W\<close> is an
  integer.
\<close>

theorem prefill_before_cancellation:
  "(promise (start c) = Pending \<longrightarrow>
      (\<forall>i. i < currentIndex (start c) \<longleftrightarrow>
         below i (r_threads (opts c)) \<and> i < length (source c)) \<and>
      map index (tasks (start c)) = [0..<currentIndex (start c)] \<and>
      (\<forall>w. r_threads (opts c) = Fin (of_nat w) \<longrightarrow>
         currentIndex (start c) = min w (length (source c))) \<and>
      (\<forall>t \<in> set (tasks (start c)). stage t = Running)) \<and>
   polls (start c) = [] \<and>
   (reachable c s \<longrightarrow> (\<forall>n \<in> set (polls s). 1 \<le> n))"
proof -
  have "(promise (start c) = Pending \<longrightarrow>
      (\<forall>i. i < currentIndex (start c) \<longleftrightarrow>
         below i (r_threads (opts c)) \<and> i < length (source c)) \<and>
      map index (tasks (start c)) = [0..<currentIndex (start c)] \<and>
      (\<forall>w. r_threads (opts c) = Fin (of_nat w) \<longrightarrow>
         currentIndex (start c) = min w (length (source c))) \<and>
      (\<forall>t \<in> set (tasks (start c)). stage t = Running)) \<and>
   polls (start c) = []"
  proof (cases c rule: start_cases)
    case range
    then show ?thesis by simp
  next
    case (throw e s)
    with admitting_tasks(3) [OF throw(2)] show ?thesis by simp
  next
    case (filled s)
    have a: "i < currentIndex s \<longleftrightarrow> below i (r_threads (opts c)) \<and> i < length (source c)" for i
      using filled(3) window_less_conj [of i c] by auto
    have b: "currentIndex s = min w (length (source c))"
      if "r_threads (opts c) = Fin (of_nat w)" for w
      using filled(3) window_nat [OF that] by simp
    from a b admitting_tasks(1,2,3) [OF filled(2)] filled(5) show ?thesis by simp
  qed
  with polls_positive [of c s] show ?thesis by blast
qed

theorem prefill_before_cancellation_witness:
  "promise (start (runDependently Indexed [1, 2, 3] doubling (cancelling 2 (\<lambda>n. True))
     initialDefaultThreads)) = Pending \<and>
   currentIndex (start (runDependently Indexed [1, 2, 3] doubling (cancelling 2 (\<lambda>n. True))
     initialDefaultThreads)) = 2 \<and>
   map index (tasks (start (runDependently Indexed [1, 2, 3] doubling (cancelling 2 (\<lambda>n. True))
     initialDefaultThreads))) = [0, 1] \<and>
   polls (start (runDependently Indexed [1, 2, 3] doubling (cancelling 2 (\<lambda>n. True))
     initialDefaultThreads)) = [] \<and>
   reachable (runDependently Indexed [1, 2, 3] doubling (cancelling 2 (\<lambda>n. True))
       initialDefaultThreads)
     (the (exec (runDependently Indexed [1, 2, 3] doubling (cancelling 2 (\<lambda>n. True))
         initialDefaultThreads)
        [Handle 0, Finish 0, Dequeue 0, Wake]
        (start (runDependently Indexed [1, 2, 3] doubling (cancelling 2 (\<lambda>n. True))
          initialDefaultThreads)))) \<and>
   polls (the (exec (runDependently Indexed [1, 2, 3] doubling (cancelling 2 (\<lambda>n. True))
         initialDefaultThreads)
        [Handle 0, Finish 0, Dequeue 0, Wake]
        (start (runDependently Indexed [1, 2, 3] doubling (cancelling 2 (\<lambda>n. True))
          initialDefaultThreads)))) = [1]"
proof -
  define c where "c = runDependently Indexed [1, 2, 3] doubling (cancelling 2 (\<lambda>n. True))
    initialDefaultThreads"
  define s where "s = the (exec c [Handle 0, Finish 0, Dequeue 0, Wake] (start c))"
  have p: "promise (start c) = Pending"
    unfolding c_def by code_simp
  have w: "r_threads (opts c) = Fin (of_nat 2)"
    by (simp add: c_def opts_def runDependently_def getOptions_def cancelling_def)
  have n: "length (source c) = 3"
    by (simp add: c_def runDependently_def)
  have u: "[0..<2] = [0, Suc 0]"
    by (simp add: upt_rec)
  have "exec c [Handle 0, Finish 0, Dequeue 0, Wake] (start c) \<noteq> None"
    unfolding c_def by code_simp
  then have r: "reachable c s"
    unfolding s_def by (rule run_reachable_the)
  have q: "polls s = [1]"
    unfolding s_def c_def by code_simp
  from prefill_before_cancellation [of c s] p w
  have k: "currentIndex (start c) = min 2 (length (source c))"
    and m: "map index (tasks (start c)) = [0..<currentIndex (start c)]"
    and e: "polls (start c) = []"
    by blast+
  from k n have k2: "currentIndex (start c) = 2" by simp
  with m u have "map index (tasks (start c)) = [0, 1]" by simp
  with k2 e p r q show ?thesis
    unfolding s_def c_def by simp
qed

section \<open>The result of \<open>runDependently\<close>\<close>

text \<open>
  C1, on the code: the property is the one the array version has (lemma
  \<open>runDependently_array\<close>), but the iterator version departs from it in two ways. Its
  output array is created with \<open>window\<close> cells, so over a source of one item and a window
  of 2 the call resolves with an array of length 2, the second cell empty. And over a
  source longer than the window its pre-fill loop takes one element more from the
  iterator than it admits: over the four items 1, 2, 3, 4 with window 2 and a work
  function that doubles, the item 3 is never admitted, the item 4 gets index 2, and the
  call resolves with the three results 2, 4, 8, where the array version gives 2, 4, 6, 8.
\<close>

theorem runDependently_iterator_diverges:
  "exec (runDependently Iterated [1] doubling (threadsOnly 2) initialDefaultThreads)
      [Handle 0, Finish 0, Dequeue 0, Wake, Wake]
      (start (runDependently Iterated [1] doubling (threadsOnly 2) initialDefaultThreads)) \<noteq> None \<and>
   promise (the (exec (runDependently Iterated [1] doubling (threadsOnly 2) initialDefaultThreads)
      [Handle 0, Finish 0, Dequeue 0, Wake, Wake]
      (start (runDependently Iterated [1] doubling (threadsOnly 2) initialDefaultThreads)))) =
     Resolved \<and>
   out (the (exec (runDependently Iterated [1] doubling (threadsOnly 2) initialDefaultThreads)
      [Handle 0, Finish 0, Dequeue 0, Wake, Wake]
      (start (runDependently Iterated [1] doubling (threadsOnly 2) initialDefaultThreads)))) =
     [Some 2, None] \<and>
   exec (runDependently Iterated [1, 2, 3, 4] doubling (threadsOnly 2) initialDefaultThreads)
      (inOrder 2 1)
      (start (runDependently Iterated [1, 2, 3, 4] doubling (threadsOnly 2)
        initialDefaultThreads)) \<noteq> None \<and>
   promise (the (exec (runDependently Iterated [1, 2, 3, 4] doubling (threadsOnly 2)
        initialDefaultThreads) (inOrder 2 1)
      (start (runDependently Iterated [1, 2, 3, 4] doubling (threadsOnly 2)
        initialDefaultThreads)))) = Resolved \<and>
   out (the (exec (runDependently Iterated [1, 2, 3, 4] doubling (threadsOnly 2)
        initialDefaultThreads) (inOrder 2 1)
      (start (runDependently Iterated [1, 2, 3, 4] doubling (threadsOnly 2)
        initialDefaultThreads)))) = [Some 2, Some 4, Some 8] \<and>
   currentIndex (the (exec (runDependently Iterated [1, 2, 3, 4] doubling (threadsOnly 2)
        initialDefaultThreads) (inOrder 2 1)
      (start (runDependently Iterated [1, 2, 3, 4] doubling (threadsOnly 2)
        initialDefaultThreads)))) = 3 \<and>
   promise (the (exec (runDependently Indexed [1, 2, 3, 4] doubling (threadsOnly 2)
        initialDefaultThreads) (inOrder 3 1)
      (start (runDependently Indexed [1, 2, 3, 4] doubling (threadsOnly 2)
        initialDefaultThreads)))) = Resolved \<and>
   out (the (exec (runDependently Indexed [1, 2, 3, 4] doubling (threadsOnly 2)
        initialDefaultThreads) (inOrder 3 1)
      (start (runDependently Indexed [1, 2, 3, 4] doubling (threadsOnly 2)
        initialDefaultThreads)))) = [Some 2, Some 4, Some 6, Some 8]"
  by code_simp

section \<open>The bundle of \<open>runIndependently\<close>\<close>

text \<open>
  C2, on the code: the property is the one the array version has, but the iterator
  version loses an item when the source is longer than the window. Its pre-fill loop
  calls \<open>iter.next()\<close> once more after the window is full, and \<open>next\<close> then pulls a fresh
  element, so the element at position \<open>window\<close> is never admitted and every later item
  gets an index one lower. Over ten items and the default window 4, with a work function
  that fails at every even index and succeeds at every odd one, nine tasks are admitted:
  the resolved bundle has nine results, and values at the four odd indices 1, 3, 5, 7
  only, those at 5 and 7 being those of the items at positions 6 and 8.
\<close>

theorem runIndependently_iterator_loses_item:
  "promise (the (exec (runIndependently Iterated [10, 11, 12, 13, 14, 15, 16, 17, 18, 19]
        evenFails None initialDefaultThreads) (inOrder 6 3)
      (start (runIndependently Iterated [10, 11, 12, 13, 14, 15, 16, 17, 18, 19]
        evenFails None initialDefaultThreads)))) = Resolved \<and>
   values' (the (exec (runIndependently Iterated [10, 11, 12, 13, 14, 15, 16, 17, 18, 19]
        evenFails None initialDefaultThreads) (inOrder 6 3)
      (start (runIndependently Iterated [10, 11, 12, 13, 14, 15, 16, 17, 18, 19]
        evenFails None initialDefaultThreads)))) =
     [None, Some 22, None, Some 26, None, Some 32, None, Some 36, None] \<and>
   length (results (the (exec (runIndependently Iterated [10, 11, 12, 13, 14, 15, 16, 17, 18, 19]
        evenFails None initialDefaultThreads) (inOrder 6 3)
      (start (runIndependently Iterated [10, 11, 12, 13, 14, 15, 16, 17, 18, 19]
        evenFails None initialDefaultThreads))))) = 9 \<and>
   currentIndex (the (exec (runIndependently Iterated [10, 11, 12, 13, 14, 15, 16, 17, 18, 19]
        evenFails None initialDefaultThreads) (inOrder 6 3)
      (start (runIndependently Iterated [10, 11, 12, 13, 14, 15, 16, 17, 18, 19]
        evenFails None initialDefaultThreads)))) = 9 \<and>
   exec (runIndependently Iterated [10, 11, 12, 13, 14, 15, 16, 17, 18, 19]
        evenFails None initialDefaultThreads) (inOrder 6 3)
      (start (runIndependently Iterated [10, 11, 12, 13, 14, 15, 16, 17, 18, 19]
        evenFails None initialDefaultThreads)) \<noteq> None"
  by code_simp

section \<open>Cancellation\<close>




section \<open>The first failure in \<open>runDependently\<close>\<close>

text \<open>
  C5, as the claim states it, fails when the work function throws during the pre-fill:
  the exception leaves the executor and rejects the promise before the handler of any
  task can run. Over two items with window 2, with a work function whose promise for the
  first item rejects with \<open>a\<close> and which throws \<open>b\<close> for the second item, the call is
  rejected with \<open>b\<close> when the executor ends; the first task is then observed to fail,
  \<open>reject\<close> is called with \<open>a\<close>, and the promise stays rejected with \<open>b\<close>.
\<close>

theorem thrown_error_wins:
  "promise (start overtaken) = Rejected (Failure ''b'') \<and>
   map index (tasks (start overtaken)) = [0] \<and>
   exec overtaken [Handle 0] (start overtaken) \<noteq> None \<and>
   rejections (the (exec overtaken [Handle 0] (start overtaken))) = [''a''] \<and>
   promise (the (exec overtaken [Handle 0] (start overtaken))) = Rejected (Failure ''b'')"
  by code_simp

text \<open>
  C5, amended: in \<open>runDependently\<close>, when the executor has ended without an exception
  (\<open>new Array(threads)\<close> does not throw and the work function returns a promise for every
  item of the pre-fill, lemma \<open>start_pending_iff\<close>), in every state of the call: the
  promise is rejected exactly when \<open>reject\<close> has been called, that is when the \<open>catch\<close>
  handler of some task has run, and then with the error of the first of these calls; the
  errors passed to \<open>reject\<close> are those of the failing tasks handled so far; a call with a
  failing task admitted is never resolved, and when its run has ended it is rejected; and
  a promise once rejected keeps its error whatever happens next, so the errors of tasks
  that fail later are dropped. When the executor has ended with an exception, the promise
  is rejected with that exception in every state, whatever the tasks do.
\<close>

theorem first_failure_wins:
  assumes "policy c = Dependently" and "reachable c s"
  shows "(promise (start c) = Pending \<longrightarrow>
           (\<forall>x. promise s = Rejected x \<longrightarrow> rejections s \<noteq> []) \<and>
           (rejections s \<noteq> [] \<longrightarrow> promise s = Rejected (Failure (hd (rejections s)))) \<and>
           (\<forall>e. e \<in> set (rejections s) \<longleftrightarrow>
              (\<exists>i < currentIndex s. cell s i = Some (Rejects e))) \<and>
           (\<forall>i < currentIndex s. \<forall>e. started s ! i = Rejects e \<longrightarrow>
              promise s \<noteq> Resolved \<and> (final c s \<longrightarrow> rejections s \<noteq> [])) \<and>
           (\<forall>evs s'. rejections s \<noteq> [] \<longrightarrow> exec c evs s = Some s' \<longrightarrow>
              promise s' = Rejected (Failure (hd (rejections s))))) \<and>
         (\<forall>x. promise (start c) = Rejected x \<longrightarrow> promise s = Rejected x)"
proof (rule conjI, rule impI)
  assume sp0: "promise (start c) = Pending"
  note se = reachable_settling [OF assms(2)]
  from se sp0 have cs: "case rejections s of
           [] \<Rightarrow> promise s = Pending \<or> promise s = Resolved
         | e # es \<Rightarrow> promise s = Rejected (Failure e)"
    by (simp add: settling_def)
  have 1: "\<forall>x. promise s = Rejected x \<longrightarrow> rejections s \<noteq> []"
    using cs by (cases "rejections s") auto
  have 2: "rejections s \<noteq> [] \<longrightarrow> promise s = Rejected (Failure (hd (rejections s)))"
    using cs by (cases "rejections s") auto
  have 3: "\<forall>e. e \<in> set (rejections s) \<longleftrightarrow>
            (\<exists>i < currentIndex s. cell s i = Some (Rejects e))"
    using se assms(1) by (simp add: settling_def)
  have gone: "rejections s \<noteq> []"
    if "tasks s = []" and "i < currentIndex s" and "started s ! i = Rejects e" for i e
  proof -
    from cell_done [OF that(1,2)] that(2,3) 3 have "e \<in> set (rejections s)" by auto
    then show ?thesis by auto
  qed
  have 4: "promise s \<noteq> Resolved \<and> (final c s \<longrightarrow> rejections s \<noteq> [])"
    if "i < currentIndex s" and "started s ! i = Rejects e" for i e
  proof
    show "promise s \<noteq> Resolved"
    proof
      assume r: "promise s = Resolved"
      with se have "tasks s = []" by (simp add: settling_def)
      from gone [OF this that] 2 r show False by simp
    qed
    show "final c s \<longrightarrow> rejections s \<noteq> []"
      using final_tasks [of c s] gone [OF _ that] by blast
  qed
  have 5: "promise s' = Rejected (Failure (hd (rejections s)))"
    if "rejections s \<noteq> []" and "exec c evs s = Some s'" for evs s'
    using promise_exec [OF _ that(2)] 2 that(1) by simp
  from 1 2 3 4 5
  show "(\<forall>x. promise s = Rejected x \<longrightarrow> rejections s \<noteq> []) \<and>
           (rejections s \<noteq> [] \<longrightarrow> promise s = Rejected (Failure (hd (rejections s)))) \<and>
           (\<forall>e. e \<in> set (rejections s) \<longleftrightarrow>
              (\<exists>i < currentIndex s. cell s i = Some (Rejects e))) \<and>
           (\<forall>i < currentIndex s. \<forall>e. started s ! i = Rejects e \<longrightarrow>
              promise s \<noteq> Resolved \<and> (final c s \<longrightarrow> rejections s \<noteq> [])) \<and>
           (\<forall>evs s'. rejections s \<noteq> [] \<longrightarrow> exec c evs s = Some s' \<longrightarrow>
              promise s' = Rejected (Failure (hd (rejections s))))"
    by blast
next
  show "\<forall>x. promise (start c) = Rejected x \<longrightarrow> promise s = Rejected x"
  proof (intro allI impI)
    fix x assume x: "promise (start c) = Rejected x"
    from thrown_stays [OF x start_rejected_stopped [OF x] assms(2)]
    show "promise s = Rejected x" by simp
  qed
qed

theorem first_failure_wins_witness:
  "reachable failingRun (the (exec failingRun [Handle 1] (start failingRun))) \<and>
   rejections (the (exec failingRun [Handle 1] (start failingRun))) = [1] \<and>
   promise (the (exec failingRun [Handle 1] (start failingRun))) = Rejected (Failure 1) \<and>
   rejections (the (exec failingRun [Finish 1, Handle 0]
     (the (exec failingRun [Handle 1] (start failingRun))))) = [1, 0] \<and>
   promise (the (exec failingRun [Finish 1, Handle 0]
     (the (exec failingRun [Handle 1] (start failingRun))))) = Rejected (Failure 1)"
proof -
  define s where "s = the (exec failingRun [Handle 1] (start failingRun))"
  define s' where "s' = the (exec failingRun [Finish 1, Handle 0] s)"
  have h1: "policy failingRun = Dependently"
    by (simp add: failingRun_def runDependently_def)
  have h2: "promise (start failingRun) = Pending"
    by code_simp
  have "exec failingRun [Handle 1] (start failingRun) \<noteq> None"
    by code_simp
  then have h3: "reachable failingRun s"
    unfolding s_def by (rule run_reachable_the)
  have r: "rejections s = [1]" unfolding s_def by code_simp
  have r': "rejections s' = [1, 0]" unfolding s'_def s_def by code_simp
  have "exec failingRun [Finish 1, Handle 0] s \<noteq> None"
    unfolding s_def by code_simp
  then have e: "exec failingRun [Finish 1, Handle 0] s = Some s'"
    unfolding s'_def by simp
  note main = first_failure_wins [OF h1 h3]
  from main h2 r have a: "promise s = Rejected (Failure 1)" by simp
  from r have ne: "rejections s \<noteq> []" by simp
  from main h2 ne e have "promise s' = Rejected (Failure (hd (rejections s)))" by blast
  with r have b: "promise s' = Rejected (Failure 1)" by simp
  from h3 r r' a b show ?thesis
    unfolding s'_def s_def by blast
qed

section \<open>A work function that throws\<close>




section \<open>The element pulled when a run is cancelled\<close>

text \<open>
  C10, as the claim states it, fails when the iterator is exhausted: over one item with
  window 2 and an \<open>isCanceled\<close> that answers true, the run stops at the first turn of \<open>next\<close>
  because of the predicate, and the one element the iterator has yielded is the one
  admitted; nothing was taken beyond it.
\<close>

theorem cancelled_nothing_discarded:
  "fst (canceled cancelledShort
     (the (exec cancelledShort [Handle 0, Finish 0, Dequeue 0] (start cancelledShort)))) \<and>
   phase (the (exec cancelledShort [Handle 0, Finish 0, Dequeue 0, Wake] (start cancelledShort))) =
     Draining [] \<and>
   currentIndex
     (the (exec cancelledShort [Handle 0, Finish 0, Dequeue 0, Wake] (start cancelledShort))) = 1 \<and>
   iter (the (exec cancelledShort [Handle 0, Finish 0, Dequeue 0, Wake] (start cancelledShort))) =
     [] \<and>
   length (source cancelledShort) = 1"
  by code_simp

text \<open>
  C10, amended: in the iterator version every turn of \<open>next\<close> first takes the next
  element from the iterator, whatever the stop condition then says. When the turn stops
  because \<open>isCanceled\<close> answers true and the iterator still had an element, that element
  is gone from the iterator and is not admitted, in that turn or ever after: the tasks
  admitted stay the same in every later state. When the iterator was exhausted, nothing
  is taken.
\<close>

theorem cancelled_pull_discarded:
  "(backend c = Iterated \<longrightarrow> iter (next' c s) = tl (iter s)) \<and>
   (backend c = Iterated \<and> isRacing (phase s) \<and> fire c Wake s = Some s' \<and>
    fst (canceled c s) \<and> exec c evs s' = Some s'' \<longrightarrow>
      s' = next' c s \<and> iter s' = tl (iter s) \<and> tasks s' = tasks s \<and>
      phase s' = Draining (map index (tasks s)) \<and>
      currentIndex s'' = currentIndex s \<and> started s'' = started s \<and> iter s'' = tl (iter s))"
proof (rule conjI; rule impI)
  assume "backend c = Iterated"
  then show "iter (next' c s) = tl (iter s)" by (rule iter_next')
next
  assume a: "backend c = Iterated \<and> isRacing (phase s) \<and> fire c Wake s = Some s' \<and>
    fst (canceled c s) \<and> exec c evs s' = Some s''"
  then have b: "backend c = Iterated" and cn: "fst (canceled c s)"
    and e: "exec c evs s' = Some s''"
    by blast+
  from a have s': "s' = next' c s"
    by (cases "phase s") (auto split: if_splits)
  from cn have st: "stopping c s" by (simp add: stopping_def)
  have n: "tasks s' = tasks s" "phase s' = Draining (map index (tasks s))"
    "currentIndex s' = currentIndex s" "started s' = started s"
    unfolding s' by (simp_all add: next'_stop [OF st])
  have i: "iter s' = tl (iter s)" unfolding s' by (rule iter_next' [OF b])
  from n(2) have "\<not> isRacing (phase s')" by simp
  from draining_exec [OF this e] n i s'
  show "s' = next' c s \<and> iter s' = tl (iter s) \<and> tasks s' = tasks s \<and>
      phase s' = Draining (map index (tasks s)) \<and>
      currentIndex s'' = currentIndex s \<and> started s'' = started s \<and> iter s'' = tl (iter s)"
    by simp
qed

theorem cancelled_pull_discarded_witness:
  "iter (the (exec cancelledLong [Handle 0, Finish 0, Dequeue 0] (start cancelledLong))) = [4, 5] \<and>
   currentIndex (the (exec cancelledLong [Handle 0, Finish 0, Dequeue 0] (start cancelledLong))) = 2 \<and>
   iter (the (exec cancelledLong [Handle 1, Finish 1, Dequeue 1, Wake]
     (the (fire cancelledLong Wake
       (the (exec cancelledLong [Handle 0, Finish 0, Dequeue 0] (start cancelledLong))))))) = [5] \<and>
   currentIndex (the (exec cancelledLong [Handle 1, Finish 1, Dequeue 1, Wake]
     (the (fire cancelledLong Wake
       (the (exec cancelledLong [Handle 0, Finish 0, Dequeue 0] (start cancelledLong))))))) = 2 \<and>
   promise (the (exec cancelledLong [Handle 1, Finish 1, Dequeue 1, Wake]
     (the (fire cancelledLong Wake
       (the (exec cancelledLong [Handle 0, Finish 0, Dequeue 0] (start cancelledLong))))))) =
     Resolved"
proof -
  define s where "s = the (exec cancelledLong [Handle 0, Finish 0, Dequeue 0] (start cancelledLong))"
  define s' where "s' = the (fire cancelledLong Wake s)"
  define s'' where "s'' = the (exec cancelledLong [Handle 1, Finish 1, Dequeue 1, Wake] s')"
  have b: "backend cancelledLong = Iterated"
    by (simp add: cancelledLong_def runIndependently_def)
  have r: "isRacing (phase s)" unfolding s_def by code_simp
  have "fire cancelledLong Wake s \<noteq> None" unfolding s_def by code_simp
  then have f: "fire cancelledLong Wake s = Some s'" unfolding s'_def by simp
  have cn: "fst (canceled cancelledLong s)" unfolding s_def by code_simp
  have "exec cancelledLong [Handle 1, Finish 1, Dequeue 1, Wake] s' \<noteq> None"
    unfolding s'_def s_def by code_simp
  then have e: "exec cancelledLong [Handle 1, Finish 1, Dequeue 1, Wake] s' = Some s''"
    unfolding s''_def by simp
  have it: "iter s = [4, 5]" unfolding s_def by code_simp
  have cur: "currentIndex s = 2" unfolding s_def by code_simp
  have res: "promise s'' = Resolved" unfolding s''_def s'_def s_def by code_simp
  from cancelled_pull_discarded [of cancelledLong s s' "[Handle 1, Finish 1, Dequeue 1, Wake]" s'']
    b r f cn e
  have "currentIndex s'' = currentIndex s \<and> iter s'' = tl (iter s)" by blast
  with it cur res show ?thesis
    unfolding s''_def s'_def s_def by simp
qed

end
